theory Spec2Isabelle
  imports Main
begin

section \<open>Text\<close>

text \<open>
  A JavaScript string is a sequence of UTF-16 code units. A code unit is modelled by its
  numeric value, a string by the list of its code units. \<open>str\<close> turns a literal of this
  theory into a text.
\<close>

type_synonym cu = nat
type_synonym utf16 = "cu list"

definition str :: "string \<Rightarrow> utf16" where
  "str s = map of_char s"

section \<open>Regular expressions\<close>

text \<open>
  The fragment of ECMAScript regular expressions that the two scripts use: character
  classes, the greedy and the lazy star of a class, the assertion \<open>$\<close> under the
  \<open>m\<close> flag, sequencing and one level of capturing groups.
\<close>

datatype cls =
    Lit cu
  | Dot
  | Space
  | NonSpace
  | Alt "cls list"

definition isLineTerminator :: "cu \<Rightarrow> bool" where
  "isLineTerminator c \<longleftrightarrow> c = 0x0A \<or> c = 0x0D \<or> c = 0x2028 \<or> c = 0x2029"

definition isWhiteSpace :: "cu \<Rightarrow> bool" where
  "isWhiteSpace c \<longleftrightarrow>
     c = 0x09 \<or> c = 0x0B \<or> c = 0x0C \<or> c = 0x20 \<or> c = 0xA0 \<or> c = 0x1680 \<or>
     (0x2000 \<le> c \<and> c \<le> 0x200A) \<or> c = 0x202F \<or> c = 0x205F \<or> c = 0x3000 \<or> c = 0xFEFF"

fun cls_match :: "cls \<Rightarrow> cu \<Rightarrow> bool" where
  "cls_match (Lit a) c = (c = a)"
| "cls_match Dot c = (\<not> isLineTerminator c)"
| "cls_match Space c = (isWhiteSpace c \<or> isLineTerminator c)"
| "cls_match NonSpace c = (\<not> (isWhiteSpace c \<or> isLineTerminator c))"
| "cls_match (Alt cs) c = list_ex (\<lambda>k. cls_match k c) cs"

datatype re =
    Atom cls
  | Star cls
  | LazyStar cls
  | Eol
  | Seq re re
  | Group re

text \<open>
  The matcher follows the continuation semantics of the language definition: a matcher
  takes the rest of the input, the captures so far and a continuation, and the first
  alternative whose continuation succeeds wins (backtracking).
\<close>

fun m :: "re \<Rightarrow> utf16 \<Rightarrow> utf16 list \<Rightarrow> (utf16 \<Rightarrow> utf16 list \<Rightarrow> 'a option) \<Rightarrow> 'a option" where
  "m (Atom c) [] caps k = None"
| "m (Atom c) (x # xs) caps k = (if cls_match c x then k xs caps else None)"
| "m (Star c) [] caps k = k [] caps"
| "m (Star c) (x # xs) caps k =
     (if cls_match c x
      then (case m (Star c) xs caps k of Some r \<Rightarrow> Some r | None \<Rightarrow> k (x # xs) caps)
      else k (x # xs) caps)"
| "m (LazyStar c) [] caps k = k [] caps"
| "m (LazyStar c) (x # xs) caps k =
     (case k (x # xs) caps of
        Some r \<Rightarrow> Some r
      | None \<Rightarrow> if cls_match c x then m (LazyStar c) xs caps k else None)"
| "m Eol [] caps k = k [] caps"
| "m Eol (x # xs) caps k = (if isLineTerminator x then k (x # xs) caps else None)"
| "m (Seq a b) s caps k = m a s caps (\<lambda>s' caps'. m b s' caps' k)"
| "m (Group a) s caps k =
     m a s caps (\<lambda>s' caps'. k s' (caps' @ [take (length s - length s') s]))"

text \<open>One match attempt at the start of \<open>s\<close>: the length of the match and its captures.\<close>

definition re_exec :: "re \<Rightarrow> utf16 \<Rightarrow> (nat \<times> utf16 list) option" where
  "re_exec r s = m r s [] (\<lambda>s' caps. Some (length s - length s', caps))"

datatype seg = Keep cu | Match utf16 "utf16 list"

text \<open>
  The scan of \<open>String.prototype.replace\<close> with a global pattern: matches are looked for
  from left to right, the search resumes where the last match ended, and after an empty
  match it moves on by one code unit.
\<close>

function re_scan :: "re \<Rightarrow> utf16 \<Rightarrow> seg list" where
  "re_scan r [] = (case re_exec r [] of Some (n, caps) \<Rightarrow> [Match [] caps] | None \<Rightarrow> [])"
| "re_scan r (x # xs) =
     (case re_exec r (x # xs) of
        None \<Rightarrow> Keep x # re_scan r xs
      | Some (n, caps) \<Rightarrow>
          if n = 0 then Match [] caps # Keep x # re_scan r xs
          else Match (take n (x # xs)) caps # re_scan r (drop n (x # xs)))"
  by pat_completeness auto
termination
  by (relation "measure (\<lambda>(r, s). length s)") auto

text \<open>A replacement pattern: literal characters and references \<open>$n\<close> to a capture.\<close>

datatype rep = RLit utf16 | RCap nat

fun expand :: "rep list \<Rightarrow> utf16 list \<Rightarrow> utf16" where
  "expand [] caps = []"
| "expand (RLit t # rs) caps = t @ expand rs caps"
| "expand (RCap n # rs) caps =
     (if 0 < n \<and> n \<le> length caps then caps ! (n - 1) else 0x24 # [0x30 + n]) @ expand rs caps"

fun seg_out :: "rep list \<Rightarrow> seg \<Rightarrow> utf16" where
  "seg_out rp (Keep c) = [c]"
| "seg_out rp (Match t caps) = expand rp caps"

definition replace_all :: "re \<Rightarrow> rep list \<Rightarrow> utf16 \<Rightarrow> utf16" where
  "replace_all r rp s = concat (map (seg_out rp) (re_scan r s))"

section \<open>The stripping steps\<close>

text \<open>\<^verbatim>\<open>/\/\*[\s\S]*?\*\//g\<close>\<close>

definition re_block :: re where
  "re_block = Seq (Atom (Lit 0x2F)) (Seq (Atom (Lit 0x2A))
     (Seq (LazyStar (Alt [Space, NonSpace])) (Seq (Atom (Lit 0x2A)) (Atom (Lit 0x2F)))))"

text \<open>\<^verbatim>\<open>/\/\/.*$/gm\<close>\<close>

definition re_line :: re where
  "re_line = Seq (Atom (Lit 0x2F)) (Seq (Atom (Lit 0x2F)) (Seq (Star Dot) Eol))"

text \<open>\<^verbatim>\<open>/,(s*[}\]])/g\<close> of setup-react.js: the star is on the letter s.\<close>

definition re_comma_js :: re where
  "re_comma_js = Seq (Atom (Lit 0x2C))
     (Group (Seq (Star (Lit 0x73)) (Atom (Alt [Lit 0x7D, Lit 0x5D]))))"

text \<open>\<^verbatim>\<open>/,(\s*[}\]])/g\<close> of the shell script, as node receives it.\<close>

definition re_comma_sh :: re where
  "re_comma_sh = Seq (Atom (Lit 0x2C))
     (Group (Seq (Star Space) (Atom (Alt [Lit 0x7D, Lit 0x5D]))))"

definition stripComments :: "utf16 \<Rightarrow> utf16" where
  "stripComments t = replace_all re_line [] (replace_all re_block [] t)"

definition stripTrailingCommas_js :: "utf16 \<Rightarrow> utf16" where
  "stripTrailingCommas_js t = replace_all re_comma_js [RCap 1] t"

definition stripTrailingCommas_sh :: "utf16 \<Rightarrow> utf16" where
  "stripTrailingCommas_sh t = replace_all re_comma_sh [RCap 1] t"

section \<open>The comment scanners, in the words of the specification\<close>

text \<open>
  The specification describes the removal of comments without a pattern language: a block
  comment runs from \<^verbatim>\<open>/*\<close> to the first \<^verbatim>\<open>*/\<close> after it, newlines included, and a line
  comment runs from \<^verbatim>\<open>//\<close> to the end of its line. The two scanners below follow these
  words; they are compared with the patterns of the source in the theorems.

  \<open>find_close s\<close> is the text after the first \<^verbatim>\<open>*/\<close> of \<open>s\<close>.
\<close>

fun find_close :: "utf16 \<Rightarrow> utf16 option" where
  "find_close (x # y # ys) = (if x = 0x2A \<and> y = 0x2F then Some ys else find_close (y # ys))"
| "find_close _ = None"

lemma find_close_suffix: "find_close s = Some r \<Longrightarrow> \<exists>p. s = p @ r \<and> 2 \<le> length p"
proof (induction s rule: find_close.induct)
  case (1 x y ys)
  show ?case
  proof (cases "x = 0x2A \<and> y = 0x2F")
    case True
    with 1 have "r = ys" by simp
    then have "x # y # ys = [x, y] @ r \<and> 2 \<le> length [x, y]" by simp
    then show ?thesis by blast
  next
    case False
    with 1 obtain p where "y # ys = p @ r" "2 \<le> length p" by auto
    then have "x # y # ys = (x # p) @ r \<and> 2 \<le> length (x # p)" by simp
    then show ?thesis by blast
  qed
qed simp_all

lemma find_close_length: "find_close s = Some r \<Longrightarrow> length r < length s"
proof -
  assume "find_close s = Some r"
  from find_close_suffix [OF this] obtain p where "s = p @ r" "2 \<le> length p" by blast
  then show ?thesis by (cases p) auto
qed

text \<open>A \<^verbatim>\<open>/*\<close> that no \<^verbatim>\<open>*/\<close> follows is ordinary text.\<close>

function strip_block_spec :: "utf16 \<Rightarrow> utf16" where
  "strip_block_spec [] = []"
| "strip_block_spec [x] = [x]"
| "strip_block_spec (x # y # ys) =
     (if x = 0x2F \<and> y = 0x2A
      then (case find_close ys of
              Some rest \<Rightarrow> strip_block_spec rest
            | None \<Rightarrow> x # strip_block_spec (y # ys))
      else x # strip_block_spec (y # ys))"
  by pat_completeness auto
termination
  by (relation "measure length") (auto dest: find_close_length)

text \<open>The line terminator that ends a line comment stays.\<close>

function strip_line_spec :: "utf16 \<Rightarrow> utf16" where
  "strip_line_spec [] = []"
| "strip_line_spec [x] = [x]"
| "strip_line_spec (x # y # ys) =
     (if x = 0x2F \<and> y = 0x2F
      then strip_line_spec (dropWhile (\<lambda>c. \<not> isLineTerminator c) ys)
      else x # strip_line_spec (y # ys))"
  by pat_completeness auto
termination
  by (relation "measure length") (auto simp: less_Suc_eq_le intro: le_trans [OF length_dropWhile_le])

text \<open>A block comment: \<^verbatim>\<open>/*\<close>, then text whose first \<^verbatim>\<open>*/\<close> is its end.\<close>

definition is_block_comment :: "utf16 \<Rightarrow> bool" where
  "is_block_comment c \<longleftrightarrow> take 2 c = [0x2F, 0x2A] \<and> find_close (drop 2 c) = Some []"

text \<open>The part of the input that a piece of the scan stands for.\<close>

fun seg_src :: "seg \<Rightarrow> utf16" where
  "seg_src (Keep c) = [c]"
| "seg_src (Match t caps) = t"

text \<open>\<open>has_pair a b s\<close>: the character \<open>a\<close> stands directly before \<open>b\<close> somewhere in \<open>s\<close>.\<close>

fun has_pair :: "cu \<Rightarrow> cu \<Rightarrow> utf16 \<Rightarrow> bool" where
  "has_pair a b (x # y # ys) = ((x = a \<and> y = b) \<or> has_pair a b (y # ys))"
| "has_pair a b _ = False"

text \<open>A line comment: \<^verbatim>\<open>//\<close>, then text without a line terminator.\<close>

definition is_line_comment :: "utf16 \<Rightarrow> bool" where
  "is_line_comment c \<longleftrightarrow>
     take 2 c = [0x2F, 0x2F] \<and> list_all (\<lambda>x. \<not> isLineTerminator x) (drop 2 c)"

text \<open>A pattern that matches at no position of a text.\<close>

fun matches_nowhere :: "re \<Rightarrow> utf16 \<Rightarrow> bool" where
  "matches_nowhere r [] = (re_exec r [] = None)"
| "matches_nowhere r (x # xs) = (re_exec r (x # xs) = None \<and> matches_nowhere r xs)"

text \<open>The characters that close an object or an array.\<close>

definition isCloser :: "cu \<Rightarrow> bool" where
  "isCloser d \<longleftrightarrow> d = 0x7D \<or> d = 0x5D"

section \<open>JavaScript values\<close>

text \<open>
  The values that \<open>JSON.parse\<close> builds and the program changes. A number is kept as the
  text that \<open>Number.prototype.toString\<close> gives for it (so \<open>1.0\<close> and \<open>1\<close> are the same
  value \<open>1\<close>, and both zeros are \<open>0\<close>): floating point itself is not modelled. An object
  is the list of its own properties in the order in which \<open>JSON.stringify\<close> and
  \<open>Object.keys\<close> list them. An array is an object too: besides its elements it can
  receive named properties, which the program does to an array found where it expects
  an object. \<open>undefined\<close> is \<open>None\<close> of \<open>jsval option\<close>.
\<close>

datatype jsval =
    JNull
  | JBool bool
  | JNum utf16
  | JStr utf16
  | JArr "jsval list" "(utf16 \<times> jsval) list"
  | JObj "(utf16 \<times> jsval) list"

type_synonym props = "(utf16 \<times> jsval) list"

text \<open>
  What the program can throw: the SyntaxError of \<open>JSON.parse\<close> (the MalformedConfig of the
  specification), a TypeError, the error of \<open>execSync\<close> for a command that fails, and the
  error of a file system call.
\<close>

datatype error = SyntaxError | TypeError | CommandFailed | FsError

subsection \<open>Property order\<close>

text \<open>
  Own property keys are listed with the array indices first, in ascending numeric order,
  then the other keys in the order of their creation. An array index is the canonical
  decimal numeral of an integer below \<open>2\<^sup>3\<^sup>2 - 1\<close>. Canonical numerals are compared as
  numbers by comparing their lengths first and their digits from the left next.
\<close>

definition isDigit :: "cu \<Rightarrow> bool" where
  "isDigit c \<longleftrightarrow> 0x30 \<le> c \<and> c \<le> 0x39"

fun digits_less :: "utf16 \<Rightarrow> utf16 \<Rightarrow> bool" where
  "digits_less (a # as) (b # bs) = (a < b \<or> (a = b \<and> digits_less as bs))"
| "digits_less _ _ = False"

definition numeral_less :: "utf16 \<Rightarrow> utf16 \<Rightarrow> bool" where
  "numeral_less a b \<longleftrightarrow> length a < length b \<or> (length a = length b \<and> digits_less a b)"

definition isArrayIndex :: "utf16 \<Rightarrow> bool" where
  "isArrayIndex k \<longleftrightarrow>
     (case k of
        [] \<Rightarrow> False
      | c # cs \<Rightarrow> list_all isDigit k \<and> (if c = 0x30 then cs = [] else True) \<and>
                 numeral_less k (str ''4294967295''))"

text \<open>Overwriting an existing property keeps its place.\<close>

fun replace_prop :: "utf16 \<Rightarrow> jsval \<Rightarrow> props \<Rightarrow> props" where
  "replace_prop k v [] = []"
| "replace_prop k v ((k', v') # ps) =
     (if k' = k then (k, v) # ps else (k', v') # replace_prop k v ps)"

text \<open>A new array index goes before the first key that is not a smaller array index.\<close>

fun insert_index :: "utf16 \<Rightarrow> jsval \<Rightarrow> props \<Rightarrow> props" where
  "insert_index k v [] = [(k, v)]"
| "insert_index k v ((k', v') # ps) =
     (if isArrayIndex k' \<and> numeral_less k' k then (k', v') # insert_index k v ps
      else (k, v) # (k', v') # ps)"

definition obj_set :: "utf16 \<Rightarrow> jsval \<Rightarrow> props \<Rightarrow> props" where
  "obj_set k v ps =
     (if map_of ps k \<noteq> None then replace_prop k v ps
      else if isArrayIndex k then insert_index k v ps
      else ps @ [(k, v)])"

text \<open>The values that can hold a property: objects, arrays among them.\<close>

fun isObject :: "jsval \<Rightarrow> bool" where
  "isObject (JObj ps) = True"
| "isObject (JArr es ps) = True"
| "isObject _ = False"

subsection \<open>Reading and writing a property\<close>

text \<open>
  \<open>base.k\<close> for the three names the program uses (\<open>compilerOptions\<close>, \<open>baseUrl\<close>,
  \<open>paths\<close>): none of them is an array index, \<open>length\<close> or a property of a built-in
  prototype, so only own properties of objects and arrays are found. Reading a property
  of \<open>null\<close> throws a TypeError; a boolean, a number and a string have no such
  property.
\<close>

fun get_prop :: "jsval \<Rightarrow> utf16 \<Rightarrow> error + jsval option" where
  "get_prop JNull k = Inl TypeError"
| "get_prop (JObj ps) k = Inr (map_of ps k)"
| "get_prop (JArr es ps) k = Inr (map_of ps k)"
| "get_prop v k = Inr None"

text \<open>
  \<open>base.k = v\<close>. The scripts run in sloppy mode (a CommonJS file and \<open>node -e\<close>, neither
  with a \<open>use strict\<close> directive), where an assignment to a property of a boolean, a
  number or a string is silently dropped. The result is the base after the assignment.
\<close>

fun set_prop :: "jsval \<Rightarrow> utf16 \<Rightarrow> jsval \<Rightarrow> error + jsval" where
  "set_prop JNull k v = Inl TypeError"
| "set_prop (JObj ps) k v = Inr (JObj (obj_set k v ps))"
| "set_prop (JArr es ps) k v = Inr (JArr es (obj_set k v ps))"
| "set_prop x k v = Inr x"

text \<open>\<open>!v\<close> is true for \<open>undefined\<close>, \<open>null\<close>, \<open>false\<close>, zero and the empty string.\<close>

fun truthy :: "jsval option \<Rightarrow> bool" where
  "truthy None = False"
| "truthy (Some JNull) = False"
| "truthy (Some (JBool b)) = b"
| "truthy (Some (JNum t)) = (t \<noteq> str ''0'')"
| "truthy (Some (JStr t)) = (t \<noteq> [])"
| "truthy (Some (JArr es ps)) = True"
| "truthy (Some (JObj ps)) = True"

text \<open>
  \<open>base.k1.k2 = v\<close>: reading \<open>base.k1\<close> comes first, and assigning to a property of
  \<open>undefined\<close> throws a TypeError. The value of \<open>base.k1\<close> is changed in place; the
  values are trees (nothing that \<open>JSON.parse\<close> builds is shared), so the changed value is
  put back under \<open>k1\<close>, where \<open>base\<close> sees it.
\<close>

definition set_prop2 :: "jsval \<Rightarrow> utf16 \<Rightarrow> utf16 \<Rightarrow> jsval \<Rightarrow> error + jsval" where
  "set_prop2 base k1 k2 v =
     (case get_prop base k1 of
        Inl e \<Rightarrow> Inl e
      | Inr None \<Rightarrow> Inl TypeError
      | Inr (Some c) \<Rightarrow>
          (case set_prop c k2 v of
             Inl e \<Rightarrow> Inl e
           | Inr c' \<Rightarrow>
               (case base of
                  JObj ps \<Rightarrow> Inr (JObj (replace_prop k1 c' ps))
                | JArr es ps \<Rightarrow> Inr (JArr es (replace_prop k1 c' ps))
                | _ \<Rightarrow> Inr base)))"

section \<open>The path alias\<close>

text \<open>
  Lines 149 to 151 of setup-react.js (107 to 109 of the shell script):
  \<^verbatim>\<open>if (!appConfig.compilerOptions) appConfig.compilerOptions = {};\<close>
  \<^verbatim>\<open>appConfig.compilerOptions.baseUrl = '.';\<close>
  \<^verbatim>\<open>appConfig.compilerOptions.paths = { '@/*': ['./src/*'] };\<close>
\<close>

definition pathAlias :: jsval where
  "pathAlias = JObj [(str ''@/*'', JArr [JStr (str ''./src/*'')] [])]"

definition ensureCompilerOptions :: "jsval \<Rightarrow> error + jsval" where
  "ensureCompilerOptions appConfig =
     (case get_prop appConfig (str ''compilerOptions'') of
        Inl e \<Rightarrow> Inl e
      | Inr c \<Rightarrow>
          if \<not> truthy c then set_prop appConfig (str ''compilerOptions'') (JObj [])
          else Inr appConfig)"

definition injectPathAlias :: "jsval \<Rightarrow> error + jsval" where
  "injectPathAlias appConfig =
     (case ensureCompilerOptions appConfig of
        Inl e \<Rightarrow> Inl e
      | Inr a1 \<Rightarrow>
          (case set_prop2 a1 (str ''compilerOptions'') (str ''baseUrl'') (JStr (str ''.'')) of
             Inl e \<Rightarrow> Inl e
           | Inr a2 \<Rightarrow> set_prop2 a2 (str ''compilerOptions'') (str ''paths'') pathAlias))"

text \<open>
  A key path: the value reached from a document by a list of keys, through own properties
  of objects and through elements and named properties of arrays.
\<close>

fun digit_value :: "utf16 \<Rightarrow> nat" where
  "digit_value k = foldl (\<lambda>n c. 10 * n + (c - 0x30)) 0 k"

fun get_path :: "jsval \<Rightarrow> utf16 list \<Rightarrow> jsval option" where
  "get_path v [] = Some v"
| "get_path (JObj ps) (k # ks) =
     (case map_of ps k of None \<Rightarrow> None | Some w \<Rightarrow> get_path w ks)"
| "get_path (JArr es ps) (k # ks) =
     (if isArrayIndex k
      then (if digit_value k < length es then get_path (es ! digit_value k) ks else None)
      else (case map_of ps k of None \<Rightarrow> None | Some w \<Rightarrow> get_path w ks))"
| "get_path _ (k # ks) = None"

section \<open>JSON.stringify\<close>

text \<open>
  \<open>JSON.stringify(value, null, 2)\<close> on the values above: members and elements on lines
  of their own, indented by two spaces per level, \<open>": "\<close> after a key, empty containers
  as \<open>{}\<close> and \<open>[]\<close>. The named properties of an array are not written. A number that is
  not finite is written \<open>null\<close>.
\<close>

definition hexDigit :: "nat \<Rightarrow> cu" where
  "hexDigit n = (if n < 10 then 0x30 + n else 0x57 + n)"

definition unicodeEscape :: "cu \<Rightarrow> utf16" where
  "unicodeEscape c =
     [0x5C, 0x75, hexDigit (c div 4096 mod 16), hexDigit (c div 256 mod 16),
      hexDigit (c div 16 mod 16), hexDigit (c mod 16)]"

definition isLeadingSurrogate :: "cu \<Rightarrow> bool" where
  "isLeadingSurrogate c \<longleftrightarrow> 0xD800 \<le> c \<and> c \<le> 0xDBFF"

definition isTrailingSurrogate :: "cu \<Rightarrow> bool" where
  "isTrailingSurrogate c \<longleftrightarrow> 0xDC00 \<le> c \<and> c \<le> 0xDFFF"

text \<open>
  The characters of a quoted string: the short escapes, \<open>\u\<close> escapes for the other
  control characters and for surrogates that are not part of a pair, everything else as
  it is.
\<close>

fun quoteChars :: "utf16 \<Rightarrow> utf16" where
  "quoteChars [] = []"
| "quoteChars (c # cs) =
     (if c = 0x08 then 0x5C # 0x62 # quoteChars cs
      else if c = 0x09 then 0x5C # 0x74 # quoteChars cs
      else if c = 0x0A then 0x5C # 0x6E # quoteChars cs
      else if c = 0x0C then 0x5C # 0x66 # quoteChars cs
      else if c = 0x0D then 0x5C # 0x72 # quoteChars cs
      else if c = 0x22 then 0x5C # 0x22 # quoteChars cs
      else if c = 0x5C then 0x5C # 0x5C # quoteChars cs
      else if c < 0x20 then unicodeEscape c @ quoteChars cs
      else if isLeadingSurrogate c then
        (case cs of
           [] \<Rightarrow> unicodeEscape c
         | d # ds \<Rightarrow>
             if isTrailingSurrogate d then c # d # quoteChars ds
             else unicodeEscape c @ quoteChars cs)
      else if isTrailingSurrogate c then unicodeEscape c @ quoteChars cs
      else c # quoteChars cs)"

definition quote :: "utf16 \<Rightarrow> utf16" where
  "quote t = 0x22 # quoteChars t @ [0x22]"

definition indent :: "nat \<Rightarrow> utf16" where
  "indent n = replicate n 0x20"

fun ser :: "nat \<Rightarrow> jsval \<Rightarrow> utf16"
  and ser_elems :: "nat \<Rightarrow> jsval list \<Rightarrow> utf16"
  and ser_props :: "nat \<Rightarrow> props \<Rightarrow> utf16" where
  "ser i JNull = str ''null''"
| "ser i (JBool b) = (if b then str ''true'' else str ''false'')"
| "ser i (JNum t) =
     (if t = str ''Infinity'' \<or> t = str ''-Infinity'' \<or> t = str ''NaN'' then str ''null'' else t)"
| "ser i (JStr t) = quote t"
| "ser i (JArr es ps) =
     (if es = [] then str ''[]''
      else 0x5B # 0x0A # ser_elems (i + 2) es @ 0x0A # indent i @ [0x5D])"
| "ser i (JObj ps) =
     (if ps = [] then str ''{}''
      else 0x7B # 0x0A # ser_props (i + 2) ps @ 0x0A # indent i @ [0x7D])"
| "ser_elems i [] = []"
| "ser_elems i (e # es) =
     indent i @ ser i e @ (if es = [] then [] else 0x2C # 0x0A # ser_elems i es)"
| "ser_props i [] = []"
| "ser_props i (p # ps) =
     indent i @ quote (fst p) @ 0x3A # 0x20 # ser i (snd p) @
       (if ps = [] then [] else 0x2C # 0x0A # ser_props i ps)"

definition JSON_stringify :: "jsval \<Rightarrow> utf16" where
  "JSON_stringify v = ser 0 v"

section \<open>JSON.parse\<close>

text \<open>
  \<open>JSON.parse\<close> accepts the JSON grammar and throws a SyntaxError on every other text.
  The model reads the text into tokens and runs the grammar over the tokens. White space
  (tab, line feed, carriage return, space) may stand between any two tokens.
\<close>

datatype token =
    TLBrace | TRBrace | TLBracket | TRBracket | TColon | TComma
  | TString utf16 | TNumber utf16 | TTrue | TFalse | TNull

definition isJsonWs :: "cu \<Rightarrow> bool" where
  "isJsonWs c \<longleftrightarrow> c = 0x09 \<or> c = 0x0A \<or> c = 0x0D \<or> c = 0x20"

definition hexValue :: "cu \<Rightarrow> nat option" where
  "hexValue c =
     (if 0x30 \<le> c \<and> c \<le> 0x39 then Some (c - 0x30)
      else if 0x41 \<le> c \<and> c \<le> 0x46 then Some (c - 0x37)
      else if 0x61 \<le> c \<and> c \<le> 0x66 then Some (c - 0x57)
      else None)"

text \<open>The character that a one-letter escape stands for.\<close>

definition unescape :: "cu \<Rightarrow> cu option" where
  "unescape e =
     (if e = 0x22 then Some 0x22
      else if e = 0x5C then Some 0x5C
      else if e = 0x2F then Some 0x2F
      else if e = 0x62 then Some 0x08
      else if e = 0x66 then Some 0x0C
      else if e = 0x6E then Some 0x0A
      else if e = 0x72 then Some 0x0D
      else if e = 0x74 then Some 0x09
      else None)"

definition cons_fst :: "'a \<Rightarrow> ('a list \<times> 'b) option \<Rightarrow> ('a list \<times> 'b) option" where
  "cons_fst x r = (case r of None \<Rightarrow> None | Some (t, s) \<Rightarrow> Some (x # t, s))"

text \<open>
  A string after its opening quote: the characters it denotes and the text after the
  closing quote. A raw control character, an unknown escape and a missing closing quote
  are errors.
\<close>

fun lex_string :: "utf16 \<Rightarrow> (utf16 \<times> utf16) option" where
  "lex_string [] = None"
| "lex_string (c # cs) =
     (if c = 0x22 then Some ([], cs)
      else if c = 0x5C then
        (case cs of
           [] \<Rightarrow> None
         | e # r \<Rightarrow>
             if e = 0x75 then
               (case r of
                  h1 # h2 # h3 # h4 # r' \<Rightarrow>
                    (case (hexValue h1, hexValue h2, hexValue h3, hexValue h4) of
                       (Some a, Some b, Some c, Some d) \<Rightarrow>
                         cons_fst (((a * 16 + b) * 16 + c) * 16 + d) (lex_string r')
                     | _ \<Rightarrow> None)
                | _ \<Rightarrow> None)
             else (case unescape e of None \<Rightarrow> None | Some x \<Rightarrow> cons_fst x (lex_string r)))
      else if c < 0x20 then None
      else cons_fst c (lex_string cs))"

text \<open>
  A number: an optional minus, \<open>0\<close> or digits that do not start with \<open>0\<close>, an optional
  fraction and an optional exponent, each with at least one digit. The result is the
  numeral and the text after it.
\<close>

definition lex_int :: "utf16 \<Rightarrow> (utf16 \<times> utf16) option" where
  "lex_int s =
     (case s of
        [] \<Rightarrow> None
      | c # r \<Rightarrow>
          if c = 0x30 then Some ([c], r)
          else if isDigit c then Some (takeWhile isDigit s, dropWhile isDigit s)
          else None)"

definition lex_frac :: "utf16 \<Rightarrow> (utf16 \<times> utf16) option" where
  "lex_frac s =
     (case s of
        [] \<Rightarrow> Some ([], s)
      | c # r \<Rightarrow>
          if c = 0x2E then
            (if takeWhile isDigit r = [] then None
             else Some (c # takeWhile isDigit r, dropWhile isDigit r))
          else Some ([], s))"

definition lex_digits1 :: "utf16 \<Rightarrow> utf16 \<Rightarrow> (utf16 \<times> utf16) option" where
  "lex_digits1 pre s =
     (if takeWhile isDigit s = [] then None
      else Some (pre @ takeWhile isDigit s, dropWhile isDigit s))"

definition lex_exp :: "utf16 \<Rightarrow> (utf16 \<times> utf16) option" where
  "lex_exp s =
     (case s of
        [] \<Rightarrow> Some ([], s)
      | c # r \<Rightarrow>
          if c = 0x65 \<or> c = 0x45 then
            (case r of
               [] \<Rightarrow> None
             | g # r' \<Rightarrow>
                 if g = 0x2B \<or> g = 0x2D then lex_digits1 [c, g] r' else lex_digits1 [c] r)
          else Some ([], s))"

definition lex_number :: "utf16 \<Rightarrow> (utf16 \<times> utf16) option" where
  "lex_number s =
     (case (case s of [] \<Rightarrow> ([], s) | c # r \<Rightarrow> if c = 0x2D then ([c], r) else ([], s)) of
        (sign, s1) \<Rightarrow>
          (case lex_int s1 of
             None \<Rightarrow> None
           | Some (i, s2) \<Rightarrow>
               (case lex_frac s2 of
                  None \<Rightarrow> None
                | Some (f, s3) \<Rightarrow>
                    (case lex_exp s3 of
                       None \<Rightarrow> None
                     | Some (e, s4) \<Rightarrow> Some (sign @ i @ f @ e, s4)))))"

lemma lex_string_length: "lex_string s = Some (t, r) \<Longrightarrow> length r < length s"
proof (induction s arbitrary: t rule: lex_string.induct)
  case 1
  then show ?case by simp
next
  case (2 c cs)
  then show ?case
    by (fastforce simp: cons_fst_def split: if_splits list.splits option.splits)
qed

lemma lex_int_length: "lex_int s = Some (t, r) \<Longrightarrow> length r < length s"
  by (auto simp: lex_int_def less_Suc_eq_le length_dropWhile_le split: list.splits if_splits)

lemma lex_digits1_length: "lex_digits1 p s = Some (t, r) \<Longrightarrow> length r \<le> length s"
  by (auto simp: lex_digits1_def length_dropWhile_le split: if_splits)

lemma lex_frac_length: "lex_frac s = Some (t, r) \<Longrightarrow> length r \<le> length s"
  by (auto simp: lex_frac_def le_SucI length_dropWhile_le split: list.splits if_splits)

lemma lex_exp_length: "lex_exp s = Some (t, r) \<Longrightarrow> length r \<le> length s"
  by (auto simp: lex_exp_def split: list.splits if_splits dest!: lex_digits1_length)

lemma lex_number_length:
  assumes "lex_number s = Some (t, r)"
  shows "length r < length s"
proof -
  from assms obtain sg s1 i s2 f s3 e where
    s1: "(case s of [] \<Rightarrow> ([], s) | c # r \<Rightarrow> if c = 0x2D then ([c], r) else ([], s)) = (sg, s1)" and
    i: "lex_int s1 = Some (i, s2)" and f: "lex_frac s2 = Some (f, s3)" and e: "lex_exp s3 = Some (e, r)"
    unfolding lex_number_def by (auto split: prod.splits option.splits)
  from s1 have "length s1 \<le> length s" by (auto split: list.splits if_splits)
  with lex_int_length [OF i] lex_frac_length [OF f] lex_exp_length [OF e] show ?thesis by simp
qed

definition cons_tok :: "token \<Rightarrow> token list option \<Rightarrow> token list option" where
  "cons_tok x r = (case r of None \<Rightarrow> None | Some ts \<Rightarrow> Some (x # ts))"

function lex :: "utf16 \<Rightarrow> token list option" where
  "lex [] = Some []"
| "lex (c # cs) =
     (if isJsonWs c then lex cs
      else if c = 0x7B then cons_tok TLBrace (lex cs)
      else if c = 0x7D then cons_tok TRBrace (lex cs)
      else if c = 0x5B then cons_tok TLBracket (lex cs)
      else if c = 0x5D then cons_tok TRBracket (lex cs)
      else if c = 0x3A then cons_tok TColon (lex cs)
      else if c = 0x2C then cons_tok TComma (lex cs)
      else if c = 0x22 then
        (case lex_string cs of None \<Rightarrow> None | Some (t, r) \<Rightarrow> cons_tok (TString t) (lex r))
      else if c = 0x74 then
        (if take 3 cs = str ''rue'' then cons_tok TTrue (lex (drop 3 cs)) else None)
      else if c = 0x66 then
        (if take 4 cs = str ''alse'' then cons_tok TFalse (lex (drop 4 cs)) else None)
      else if c = 0x6E then
        (if take 3 cs = str ''ull'' then cons_tok TNull (lex (drop 3 cs)) else None)
      else if c = 0x2D \<or> isDigit c then
        (case lex_number (c # cs) of None \<Rightarrow> None | Some (l, r) \<Rightarrow> cons_tok (TNumber l) (lex r))
      else None)"
  by pat_completeness auto
termination
  by (relation "measure length")
     (auto simp: less_Suc_eq_le dest: lex_string_length lex_number_length)

text \<open>
  The grammar over the tokens, as a pushdown automaton. A frame of the stack is a
  container that is being read: an array with its elements so far, or an object with its
  members so far and the key whose value is being read.
\<close>

datatype frame = InArr "jsval list" | InObj props utf16

datatype pstate =
    SValue "frame list"
  | SFirstElem "frame list"
  | SArrRest "jsval list" "frame list"
  | SFirstKey "frame list"
  | SKey props "frame list"
  | SColon props utf16 "frame list"
  | SObjRest props "frame list"
  | SDone jsval
  | SError

text \<open>
  A finished value goes to the container on top of the stack; with an empty stack it is
  the result. A member whose key is already there overwrites the earlier value.
\<close>

fun deliver :: "jsval \<Rightarrow> frame list \<Rightarrow> pstate" where
  "deliver v [] = SDone v"
| "deliver v (InArr es # st) = SArrRest (es @ [v]) st"
| "deliver v (InObj ps k # st) = SObjRest (obj_set k v ps) st"

text \<open>
  The first token of a value. \<open>num\<close> is the runtime's reading of a numeral: the text
  that \<open>Number.prototype.toString\<close> prints for the number that the numeral denotes.
\<close>

fun start_value :: "(utf16 \<Rightarrow> utf16) \<Rightarrow> frame list \<Rightarrow> token \<Rightarrow> pstate" where
  "start_value num st TLBrace = SFirstKey st"
| "start_value num st TLBracket = SFirstElem st"
| "start_value num st (TString t) = deliver (JStr t) st"
| "start_value num st (TNumber l) = deliver (JNum (num l)) st"
| "start_value num st TTrue = deliver (JBool True) st"
| "start_value num st TFalse = deliver (JBool False) st"
| "start_value num st TNull = deliver JNull st"
| "start_value num st _ = SError"

fun step :: "(utf16 \<Rightarrow> utf16) \<Rightarrow> pstate \<Rightarrow> token \<Rightarrow> pstate" where
  "step num (SValue st) tok = start_value num st tok"
| "step num (SFirstElem st) tok =
     (if tok = TRBracket then deliver (JArr [] []) st else start_value num (InArr [] # st) tok)"
| "step num (SArrRest es st) tok =
     (if tok = TComma then SValue (InArr es # st)
      else if tok = TRBracket then deliver (JArr es []) st
      else SError)"
| "step num (SFirstKey st) tok =
     (case tok of
        TRBrace \<Rightarrow> deliver (JObj []) st
      | TString k \<Rightarrow> SColon [] k st
      | _ \<Rightarrow> SError)"
| "step num (SKey ps st) tok = (case tok of TString k \<Rightarrow> SColon ps k st | _ \<Rightarrow> SError)"
| "step num (SColon ps k st) tok = (if tok = TColon then SValue (InObj ps k # st) else SError)"
| "step num (SObjRest ps st) tok =
     (if tok = TComma then SKey ps st
      else if tok = TRBrace then deliver (JObj ps) st
      else SError)"
| "step num (SDone v) tok = SError"
| "step num SError tok = SError"

definition JSON_parse :: "(utf16 \<Rightarrow> utf16) \<Rightarrow> utf16 \<Rightarrow> error + jsval" where
  "JSON_parse num t =
     (case lex t of
        None \<Rightarrow> Inl SyntaxError
      | Some toks \<Rightarrow>
          (case foldl (step num) (SValue []) toks of
             SDone v \<Rightarrow> Inr v
           | _ \<Rightarrow> Inl SyntaxError))"

section \<open>The patch of tsconfig.app.json\<close>

text \<open>
  Lines 145 to 152 of setup-react.js, from the text read to the text written; and lines
  104 to 110 of the shell script, which differ in the pattern for trailing commas.
\<close>

definition patch_text :: "(utf16 \<Rightarrow> utf16) \<Rightarrow> (utf16 \<Rightarrow> utf16) \<Rightarrow> utf16 \<Rightarrow> error + utf16" where
  "patch_text stripTrailingCommas num content =
     (case JSON_parse num (stripTrailingCommas (stripComments content)) of
        Inl e \<Rightarrow> Inl e
      | Inr appConfig \<Rightarrow>
          (case injectPathAlias appConfig of
             Inl e \<Rightarrow> Inl e
           | Inr appConfig' \<Rightarrow> Inr (JSON_stringify appConfig')))"

definition patch_js :: "(utf16 \<Rightarrow> utf16) \<Rightarrow> utf16 \<Rightarrow> error + utf16" where
  "patch_js = patch_text stripTrailingCommas_js"

definition patch_sh :: "(utf16 \<Rightarrow> utf16) \<Rightarrow> utf16 \<Rightarrow> error + utf16" where
  "patch_sh = patch_text stripTrailingCommas_sh"

section \<open>Documents that are written and read back\<close>

text \<open>
  \<open>isNumeral l\<close>: the whole of \<open>l\<close> is one JSON number.
\<close>

definition isNumeral :: "utf16 \<Rightarrow> bool" where
  "isNumeral l \<longleftrightarrow> lex_number l = Some (l, [])"

text \<open>
  The numbers of a value are finite and stable under a reading \<open>rd\<close> of numerals: each
  is kept as a numeral that \<open>rd\<close> reads as itself. With JavaScript's reading this says
  that the numbers are finite: \<open>toString\<close> prints a finite number as a JSON numeral that
  denotes the same number (and prints \<open>Infinity\<close> otherwise, which \<open>JSON.stringify\<close> writes
  as \<open>null\<close>).
\<close>

fun finite_numbers :: "(utf16 \<Rightarrow> utf16) \<Rightarrow> jsval \<Rightarrow> bool"
  and finite_numbers_list :: "(utf16 \<Rightarrow> utf16) \<Rightarrow> jsval list \<Rightarrow> bool"
  and finite_numbers_props :: "(utf16 \<Rightarrow> utf16) \<Rightarrow> props \<Rightarrow> bool" where
  "finite_numbers rd JNull = True"
| "finite_numbers rd (JBool b) = True"
| "finite_numbers rd (JNum t) = (isNumeral t \<and> rd t = t)"
| "finite_numbers rd (JStr t) = True"
| "finite_numbers rd (JArr es ps) = finite_numbers_list rd es"
| "finite_numbers rd (JObj ps) = finite_numbers_props rd ps"
| "finite_numbers_list rd [] = True"
| "finite_numbers_list rd (e # es) = (finite_numbers rd e \<and> finite_numbers_list rd es)"
| "finite_numbers_props rd [] = True"
| "finite_numbers_props rd (p # ps) = (finite_numbers rd (snd p) \<and> finite_numbers_props rd ps)"

text \<open>
  The keys of an object in the order of the language: no key twice, and a key before an
  array index is a smaller array index.
\<close>

fun canonical_keys :: "utf16 list \<Rightarrow> bool" where
  "canonical_keys [] = True"
| "canonical_keys (k # ks) =
     (k \<notin> set ks \<and>
      (case ks of
         [] \<Rightarrow> True
       | q # qs \<Rightarrow> if isArrayIndex q then isArrayIndex k \<and> numeral_less k q else True) \<and>
      canonical_keys ks)"

definition canonical :: "props \<Rightarrow> bool" where
  "canonical ps = canonical_keys (map fst ps)"

text \<open>A value all of whose objects have their keys in that order.\<close>

fun ordered :: "jsval \<Rightarrow> bool"
  and ordered_list :: "jsval list \<Rightarrow> bool"
  and ordered_props :: "props \<Rightarrow> bool" where
  "ordered (JArr es ps) = ordered_list es"
| "ordered (JObj ps) = (canonical ps \<and> ordered_props ps)"
| "ordered v = True"
| "ordered_list [] = True"
| "ordered_list (e # es) = (ordered e \<and> ordered_list es)"
| "ordered_props [] = True"
| "ordered_props (p # ps) = (ordered (snd p) \<and> ordered_props ps)"

text \<open>
  What \<open>JSON.stringify\<close> sees of a value: the named properties of arrays are left out.
  A value is plain when it has none.
\<close>

fun erase :: "jsval \<Rightarrow> jsval"
  and erase_list :: "jsval list \<Rightarrow> jsval list"
  and erase_props :: "props \<Rightarrow> props" where
  "erase (JArr es ps) = JArr (erase_list es) []"
| "erase (JObj ps) = JObj (erase_props ps)"
| "erase v = v"
| "erase_list [] = []"
| "erase_list (e # es) = erase e # erase_list es"
| "erase_props [] = []"
| "erase_props (p # ps) = (fst p, erase (snd p)) # erase_props ps"

definition plain :: "jsval \<Rightarrow> bool" where
  "plain v \<longleftrightarrow> erase v = v"

text \<open>The tokens of the text that \<open>JSON.stringify\<close> writes for a value with finite numbers.\<close>

fun toks :: "jsval \<Rightarrow> token list"
  and toks_elems :: "jsval list \<Rightarrow> token list"
  and toks_props :: "props \<Rightarrow> token list" where
  "toks JNull = [TNull]"
| "toks (JBool b) = (if b then [TTrue] else [TFalse])"
| "toks (JNum t) = [TNumber t]"
| "toks (JStr t) = [TString t]"
| "toks (JArr es ps) = TLBracket # toks_elems es @ [TRBracket]"
| "toks (JObj ps) = TLBrace # toks_props ps @ [TRBrace]"
| "toks_elems [] = []"
| "toks_elems (e # es) = toks e @ (if es = [] then [] else TComma # toks_elems es)"
| "toks_props [] = []"
| "toks_props (p # ps) =
     TString (fst p) # TColon # toks (snd p) @ (if ps = [] then [] else TComma # toks_props ps)"

text \<open>What follows a value in the text that \<open>JSON.stringify\<close> writes: nothing, a comma or a line feed.\<close>

definition follows_value :: "utf16 \<Rightarrow> bool" where
  "follows_value rest = (case rest of [] \<Rightarrow> True | c # cs \<Rightarrow> c = 0x2C \<or> c = 0x0A)"

text \<open>
  What holds of every value that \<open>JSON.parse\<close> builds, and so of every state of the
  grammar on the way: the objects have their keys in order and no array has a named
  property.
\<close>

definition tidy :: "jsval \<Rightarrow> bool" where
  "tidy v \<longleftrightarrow> ordered v \<and> plain v"

fun frame_ok :: "frame \<Rightarrow> bool" where
  "frame_ok (InArr es) = list_all tidy es"
| "frame_ok (InObj ps k) = (canonical ps \<and> list_all (\<lambda>p. tidy (snd p)) ps)"

fun state_ok :: "pstate \<Rightarrow> bool" where
  "state_ok (SValue st) = list_all frame_ok st"
| "state_ok (SFirstElem st) = list_all frame_ok st"
| "state_ok (SArrRest es st) = (list_all tidy es \<and> list_all frame_ok st)"
| "state_ok (SFirstKey st) = list_all frame_ok st"
| "state_ok (SKey ps st) = (canonical ps \<and> list_all (\<lambda>p. tidy (snd p)) ps \<and> list_all frame_ok st)"
| "state_ok (SColon ps k st) = (canonical ps \<and> list_all (\<lambda>p. tidy (snd p)) ps \<and> list_all frame_ok st)"
| "state_ok (SObjRest ps st) = (canonical ps \<and> list_all (\<lambda>p. tidy (snd p)) ps \<and> list_all frame_ok st)"
| "state_ok (SDone v) = tidy v"
| "state_ok SError = True"

text \<open>The value of \<open>compilerOptions\<close> after the two assignments of lines 150 and 151.\<close>

fun with_alias :: "jsval \<Rightarrow> jsval" where
  "with_alias (JObj ps) =
     JObj (obj_set (str ''paths'') pathAlias (obj_set (str ''baseUrl'') (JStr (str ''.'')) ps))"
| "with_alias (JArr es ps) =
     JArr es (obj_set (str ''paths'') pathAlias (obj_set (str ''baseUrl'') (JStr (str ''.'')) ps))"
| "with_alias v = v"

section \<open>The setup scripts\<close>

text \<open>
  The scripts act on the world outside (the file system, the working directory, the
  programs they start). What the world answers is not theirs to decide, so the world is a
  parameter: a state \<open>'w\<close> and the functions of \<open>env\<close>, which say for each call what it
  returns and what world it leaves. What a script does is the list of its effects, in
  order.
\<close>

type_synonym path = utf16

datatype event =
    Printed utf16
  | Ran utf16
  | ChangedDir path
  | Wrote path utf16
  | MadeDir path
  | Removed path

record 'w state =
  world :: 'w
  trace :: "event list"

text \<open>
  \<open>argv\<close> is \<open>process.argv\<close> (the interpreter, the script, then the arguments);
  \<open>exec\<close> is a command run to its end, with whether it succeeded; a file system call
  that fails has no world after it. \<open>emoji\<close> is the pick of line 299, \<open>message\<close> the
  \<open>message\<close> of a caught error, \<open>num\<close> the reading of numerals of \<open>JSON.parse\<close>, and
  \<open>echo_e\<close> what the shell's \<open>echo -e\<close> writes for an argument.
\<close>

record 'w env =
  argv :: "utf16 list"
  script_name :: utf16
  platform :: utf16
  exec :: "utf16 \<Rightarrow> 'w \<Rightarrow> bool \<times> 'w"
  exists_path :: "path \<Rightarrow> 'w \<Rightarrow> bool"
  is_directory :: "path \<Rightarrow> 'w \<Rightarrow> bool"
  read_file :: "path \<Rightarrow> 'w \<Rightarrow> utf16 option"
  write_file :: "path \<Rightarrow> utf16 \<Rightarrow> 'w \<Rightarrow> 'w option"
  make_dir :: "path \<Rightarrow> 'w \<Rightarrow> 'w option"
  unlink :: "path \<Rightarrow> 'w \<Rightarrow> 'w option"
  change_dir :: "path \<Rightarrow> 'w \<Rightarrow> 'w option"
  emoji :: utf16
  message :: "error \<Rightarrow> utf16"
  num :: "utf16 \<Rightarrow> utf16"
  echo_e :: "utf16 \<Rightarrow> utf16"

text \<open>
  The long static texts of setup-react.js are written to their files as they are; they
  are parameters here: \<open>themeProvider\<close> (lines 187 to 255), \<open>modeToggle\<close> (259 to 294),
  \<open>appComponent\<close> (313 to 332), \<open>readme\<close> of the emoji and the project name (342 to 391),
  and \<open>editHtml\<close>, the two replacements of lines 304 to 308 on the text of index.html.
\<close>

record templates =
  themeProvider :: utf16
  modeToggle :: utf16
  appComponent :: utf16
  readme :: "utf16 \<Rightarrow> utf16 \<Rightarrow> utf16"
  editHtml :: "utf16 \<Rightarrow> utf16 \<Rightarrow> utf16 \<Rightarrow> utf16"

subsection \<open>Statements\<close>

text \<open>
  The statements of the \<open>try\<close> block, one constructor per kind. \<open>Patch\<close> reads a file,
  transforms its text and writes the result to the same file.
\<close>

datatype action =
    Print utf16
  | Exec utf16
  | Chdir path
  | Write path utf16
  | Patch path "utf16 \<Rightarrow> error + utf16"
  | MkdirIfMissing path
  | UnlinkIfExists path

definition emit :: "event \<Rightarrow> 'w state \<Rightarrow> 'w state" where
  "emit e s = s\<lparr>trace := trace s @ [e]\<rparr>"

text \<open>
  A statement either completes, with the state after it, or throws, with the error and
  the state at the throw. A command that fails has run; a file system call that fails
  has changed nothing.
\<close>

definition fs_call ::
  "event \<Rightarrow> 'w option \<Rightarrow> 'w state \<Rightarrow> (error \<times> 'w state) + 'w state" where
  "fs_call e r s =
     (case r of None \<Rightarrow> Inl (FsError, s) | Some w \<Rightarrow> Inr (emit e (s\<lparr>world := w\<rparr>)))"

fun perform :: "'w env \<Rightarrow> action \<Rightarrow> 'w state \<Rightarrow> (error \<times> 'w state) + 'w state" where
  "perform E (Print t) s = Inr (emit (Printed t) s)"
| "perform E (Exec c) s =
     (case exec E c (world s) of
        (ok, w) \<Rightarrow>
          if ok then Inr (emit (Ran c) (s\<lparr>world := w\<rparr>))
          else Inl (CommandFailed, emit (Ran c) (s\<lparr>world := w\<rparr>)))"
| "perform E (Chdir p) s = fs_call (ChangedDir p) (change_dir E p (world s)) s"
| "perform E (Write p t) s = fs_call (Wrote p t) (write_file E p t (world s)) s"
| "perform E (Patch p f) s =
     (case read_file E p (world s) of
        None \<Rightarrow> Inl (FsError, s)
      | Some t \<Rightarrow>
          (case f t of
             Inl e \<Rightarrow> Inl (e, s)
           | Inr t' \<Rightarrow> fs_call (Wrote p t') (write_file E p t' (world s)) s))"
| "perform E (MkdirIfMissing p) s =
     (if exists_path E p (world s) then Inr s
      else fs_call (MadeDir p) (make_dir E p (world s)) s)"
| "perform E (UnlinkIfExists p) s =
     (if exists_path E p (world s) then fs_call (Removed p) (unlink E p (world s)) s
      else Inr s)"

text \<open>Statements in sequence: the first throw ends the sequence.\<close>

fun perform_all :: "'w env \<Rightarrow> action list \<Rightarrow> 'w state \<Rightarrow> (error \<times> 'w state) + 'w state" where
  "perform_all E [] s = Inr s"
| "perform_all E (a # as) s =
     (case perform E a s of Inl x \<Rightarrow> Inl x | Inr s' \<Rightarrow> perform_all E as s')"

subsection \<open>setup-react.js\<close>

text \<open>The logging functions of lines 67 to 81, with the colours of lines 9 to 15.\<close>

definition colored :: "utf16 \<Rightarrow> utf16 \<Rightarrow> utf16 \<Rightarrow> utf16" where
  "colored color label msg =
     0x1B # color @ label @ 0x1B # str ''[0m'' @ str '' '' @ msg"

definition printStatus :: "utf16 \<Rightarrow> action" where
  "printStatus msg = Print (colored (str ''[34m'') (str ''[INFO]'') msg)"

definition printSuccess :: "utf16 \<Rightarrow> action" where
  "printSuccess msg = Print (colored (str ''[32m'') (str ''[SUCCESS]'') msg)"

definition printError :: "utf16 \<Rightarrow> action" where
  "printError msg = Print (colored (str ''[31m'') (str ''[ERROR]'') msg)"

text \<open>
  \<open>commandExists\<close> (lines 52 to 64) and \<open>copyToClipboard\<close> (lines 18 to 49): every
  command they start is an effect, and every error is caught.
\<close>

definition try_exec :: "'w env \<Rightarrow> utf16 \<Rightarrow> 'w state \<Rightarrow> bool \<times> 'w state" where
  "try_exec E c s =
     (case exec E c (world s) of (ok, w) \<Rightarrow> (ok, emit (Ran c) (s\<lparr>world := w\<rparr>)))"

definition commandExists :: "'w env \<Rightarrow> utf16 \<Rightarrow> 'w state \<Rightarrow> bool \<times> 'w state" where
  "commandExists E command s =
     (case try_exec E (str ''which '' @ command) s of
        (ok, s1) \<Rightarrow> if ok then (True, s1) else try_exec E (str ''where '' @ command) s1)"

definition copyToClipboard :: "'w env \<Rightarrow> utf16 \<Rightarrow> 'w state \<Rightarrow> bool \<times> 'w state" where
  \<open>copyToClipboard E t s =
     (if platform E = str ''darwin'' then try_exec E (str ''echo "'' @ t @ str ''" | pbcopy'') s
      else if platform E = str ''win32'' then try_exec E (str ''echo '' @ t @ str '' | clip'') s
      else if platform E = str ''linux'' then
        (case commandExists E (str ''xclip'') s of
           (x, s1) \<Rightarrow>
             if x then try_exec E (str ''echo "'' @ t @ str ''" | xclip -selection clipboard'') s1
             else
               (case commandExists E (str ''xsel'') s1 of
                  (y, s2) \<Rightarrow>
                    if y then try_exec E (str ''echo "'' @ t @ str ''" | xsel --clipboard --input'') s2
                    else (False, s2)))
      else (False, s))\<close>

text \<open>The object of lines 123 to 139, which line 140 writes to tsconfig.json.\<close>

definition tsConfig :: jsval where
  "tsConfig = JObj
     [(str ''files'', JArr [] []),
      (str ''references'',
         JArr [JObj [(str ''path'', JStr (str ''./tsconfig.app.json''))],
               JObj [(str ''path'', JStr (str ''./tsconfig.node.json''))]] []),
      (str ''compilerOptions'',
         JObj [(str ''baseUrl'', JStr (str ''.'')),
               (str ''paths'', JObj [(str ''@/*'', JArr [JStr (str ''./src/*'')] [])])])]"

definition viteConfig :: utf16 where
  \<open>viteConfig = str
''import path from "path"\<newline>import tailwindcss from "@tailwindcss/vite"\<newline>import react from "@vitejs/plugin-react"\<newline>import { defineConfig } from "vite"\<newline>\<newline>export default defineConfig({\<newline>  plugins: [react(), tailwindcss()],\<newline>  resolve: {\<newline>    alias: {\<newline>      "@": path.resolve(__dirname, "./src"),\<newline>    },\<newline>  },\<newline>})''\<close>

text \<open>Lines 104 to 140: up to the patch of tsconfig.app.json.\<close>

definition before_patch :: "utf16 \<Rightarrow> action list" where
  \<open>before_patch projectName =
     [printStatus (str ''Creating Vite project...''),
      Exec (str ''npm create vite@latest "'' @ projectName @ str ''" -- --template react-ts''),
      Chdir projectName,
      printStatus (str ''Installing dependencies...''),
      Exec (str ''npm install tailwindcss @tailwindcss/vite''),
      Exec (str ''npm install -D @types/node''),
      Exec (str ''npm install lucide-react''),
      printStatus (str ''Setting up Tailwind CSS...''),
      Write (str ''src/index.css'') (str ''@import "tailwindcss";''),
      printStatus (str ''Configuring TypeScript...''),
      Write (str ''tsconfig.json'') (JSON_stringify tsConfig)]\<close>

text \<open>Lines 143 to 152.\<close>

definition patch_step :: "'w env \<Rightarrow> action" where
  "patch_step E = Patch (str ''tsconfig.app.json'') (patch_js (num E))"

text \<open>Lines 155 to 395: from the configuration of Vite to the last message.\<close>

definition after_patch :: "'w env \<Rightarrow> templates \<Rightarrow> utf16 \<Rightarrow> action list" where
  \<open>after_patch E T projectName =
     [printStatus (str ''Configuring Vite...''),
      Write (str ''vite.config.ts'') viteConfig,
      Exec (str ''npm install''),
      printStatus (str ''Setting up shadcn/ui...''),
      Exec (str ''npx shadcn@latest init --yes --base-color neutral''),
      printStatus (str ''Adding essential shadcn/ui components...''),
      Exec (str ''npx shadcn@latest add button card input label dropdown-menu --yes''),
      printStatus (str ''Adding dark mode support...''),
      MkdirIfMissing (str ''src/components''),
      Write (str ''src/components/theme-provider.tsx'') (themeProvider T),
      Write (str ''src/components/mode-toggle.tsx'') (modeToggle T),
      printStatus (str ''Setting page title and favicon...''),
      Patch (str ''index.html'') (\<lambda>html. Inr (editHtml T projectName (emoji E) html)),
      printStatus (str ''Creating starter app...''),
      Write (str ''src/App.tsx'') (appComponent T),
      UnlinkIfExists (str ''src/App.css''),
      UnlinkIfExists (str ''public/vite.svg''),
      UnlinkIfExists (str ''src/assets/react.svg''),
      printStatus (str ''Writing README...''),
      Write (str ''README.md'') (readme T (emoji E) projectName),
      printSuccess (str ''All done! '' @ emoji E),
      printSuccess []]\<close>

text \<open>Lines 397 to 406: the clipboard, and what is printed after it.\<close>

definition next_steps :: "'w env \<Rightarrow> utf16 \<Rightarrow> 'w state \<Rightarrow> (error \<times> 'w state) + 'w state" where
  "next_steps E projectName s =
     (case copyToClipboard E (str ''cd '' @ projectName @ str '' && npm run dev'') s of
        (copied, s1) \<Rightarrow>
          perform_all E
            (if copied
             then [printSuccess (str ''Next command copied to clipboard! Just paste and run:''),
                   printSuccess (str ''  '' @ str ''cd '' @ projectName @ str '' && npm run dev''),
                   printSuccess []]
             else [printSuccess (str ''Next steps:''),
                   printSuccess (str ''  cd '' @ projectName),
                   printSuccess (str ''  npm run dev''),
                   printSuccess []])
            s1)"

text \<open>The \<open>try\<close> block, lines 102 to 407.\<close>

definition try_block ::
  "'w env \<Rightarrow> templates \<Rightarrow> utf16 \<Rightarrow> 'w state \<Rightarrow> (error \<times> 'w state) + 'w state" where
  "try_block E T projectName s =
     (case perform_all E (before_patch projectName @ [patch_step E] @ after_patch E T projectName) s of
        Inl x \<Rightarrow> Inl x
      | Inr s1 \<Rightarrow> next_steps E projectName s1)"

text \<open>
  How a run ends: \<open>process.exit\<close> with a status, or the return of the function, after
  which the process ends with status 0.
\<close>

datatype outcome = Exited nat | Returned

fun prints :: "action list \<Rightarrow> 'w state \<Rightarrow> 'w state" where
  "prints [] s = s"
| "prints (Print t # as) s = prints as (emit (Printed t) s)"
| "prints (a # as) s = prints as s"

text \<open>\<open>setupReactProject\<close>, lines 84 to 412.\<close>

definition setupReactProject :: "'w env \<Rightarrow> templates \<Rightarrow> 'w state \<Rightarrow> outcome \<times> 'w state" where
  \<open>setupReactProject E T s =
     (if length (argv E) < 3 then
        (Exited 1,
         prints [printError (str ''Need a project name''),
                 Print (str ''Usage: node '' @ script_name E @ str '' <project-name>'')] s)
      else
        (let projectName = argv E ! 2 in
         if exists_path E projectName (world s) then
           (Exited 1, prints [printError (str ''Directory '' @ [0x27] @ projectName @ [0x27] @ str '' already exists'')] s)
         else
           (case try_block E T projectName
                   (prints [printStatus (str ''Setting up React TypeScript project: '' @ projectName)] s) of
              Inr s1 \<Rightarrow> (Returned, s1)
            | Inl (e, s1) \<Rightarrow>
                (Exited 1, prints [printError (str ''Setup failed: '' @ message E e)] s1))))\<close>

subsection \<open>The shell script\<close>

text \<open>
  Lines 45 to 63 of the shell script: the two checks, two lines of output and the first
  command. \<open>args\<close> are the positional parameters and \<open>script_name\<close> is \<open>$0\<close>. Under
  \<open>set -e\<close> a command that fails ends the script with the status of the command;
  otherwise the script goes on after the first command.
\<close>

datatype sh_outcome = ShExited nat | ShCommandFailed | ShContinues

text \<open>\<open>print_status\<close> and \<open>print_error\<close>, lines 38 to 41, with the colours of lines 10 to 14.\<close>

definition sh_print :: "'w env \<Rightarrow> utf16 \<Rightarrow> utf16 \<Rightarrow> utf16 \<Rightarrow> event" where
  "sh_print E color label msg =
     Printed (echo_e E (color @ label @ 0x5C # str ''033[0m'' @ str '' '' @ msg))"

definition print_status :: "'w env \<Rightarrow> utf16 \<Rightarrow> event" where
  "print_status E msg = sh_print E (0x5C # str ''033[0;34m'') (str ''[INFO]'') msg"

definition print_error :: "'w env \<Rightarrow> utf16 \<Rightarrow> event" where
  "print_error E msg = sh_print E (0x5C # str ''033[0;31m'') (str ''[ERROR]'') msg"

definition setup_sh_start :: "'w env \<Rightarrow> utf16 list \<Rightarrow> 'w state \<Rightarrow> sh_outcome \<times> 'w state" where
  \<open>setup_sh_start E args s =
     (case args of
        [] \<Rightarrow>
          (ShExited 1,
           emit (Printed (str ''Usage: '' @ script_name E @ str '' <project-name>''))
             (emit (print_error E (str ''Need a project name'')) s))
      | PROJECT_NAME # rest \<Rightarrow>
          if is_directory E PROJECT_NAME (world s) then
            (ShExited 1,
             emit (print_error E
                     (str ''Directory '' @ [0x27] @ PROJECT_NAME @ [0x27] @ str '' already exists'')) s)
          else
            (case try_exec E (str ''npm create vite@latest "'' @ PROJECT_NAME @ str ''" -- --template react-ts'')
                    (emit (print_status E (str ''Creating Vite project...''))
                       (emit (print_status E
                          (str ''Setting up React TypeScript project: '' @ PROJECT_NAME)) s)) of
               (ok, s1) \<Rightarrow> if ok then (ShContinues, s1) else (ShCommandFailed, s1)))\<close>

section \<open>Example worlds\<close>

text \<open>
  Concrete inputs for the examples below. \<open>num_plain\<close> reads a numeral that is already
  written the way \<open>toString\<close> prints its number (\<open>0\<close>, \<open>1\<close>, \<open>5\<close>) as itself. The example world
  is a list of directory entries, the newest first; every command succeeds and leaves the
  world as it is.
\<close>

definition num_plain :: "utf16 \<Rightarrow> utf16" where
  "num_plain l = l"

datatype entry = File utf16 | Dir

type_synonym disk = "(path \<times> entry) list"

definition disk_read :: "path \<Rightarrow> disk \<Rightarrow> utf16 option" where
  "disk_read p w = (case map_of w p of Some (File t) \<Rightarrow> Some t | _ \<Rightarrow> None)"

fun disk_remove :: "path \<Rightarrow> disk \<Rightarrow> disk" where
  "disk_remove p [] = []"
| "disk_remove p (e # w) = (if fst e = p then disk_remove p w else e # disk_remove p w)"

definition disk_env :: "utf16 list \<Rightarrow> utf16 \<Rightarrow> disk env" where
  "disk_env args os =
     \<lparr> argv = args, script_name = str ''setup-react.js'', platform = os,
       exec = (\<lambda>c w. (True, w)),
       exists_path = (\<lambda>p w. map_of w p \<noteq> None),
       is_directory = (\<lambda>p w. map_of w p = Some Dir),
       read_file = disk_read,
       write_file = (\<lambda>p t w. Some ((p, File t) # w)),
       make_dir = (\<lambda>p w. Some ((p, Dir) # w)),
       unlink = (\<lambda>p w. Some (disk_remove p w)),
       change_dir = (\<lambda>p w. Some w),
       emoji = str ''*'',
       message = (\<lambda>e. str ''error''),
       num = num_plain,
       echo_e = (\<lambda>t. t) \<rparr>"

definition no_templates :: templates where
  "no_templates =
     \<lparr> themeProvider = [], modeToggle = [], appComponent = [],
       readme = (\<lambda>e n. n), editHtml = (\<lambda>n e html. html) \<rparr>"

section \<open>The patterns of the source and the scanners\<close>

lemma any_cu [simp]: "cls_match (Alt [Space, NonSpace]) c"
  by auto

lemma m_block_tail:
  "m (LazyStar (Alt [Space, NonSpace])) r caps
     (\<lambda>s3 c3. m (Atom (Lit 0x2A)) s3 c3 (\<lambda>s4 c4. m (Atom (Lit 0x2F)) s4 c4 (\<lambda>s5 c5. Some (f s5 c5))))
   = (case find_close r of None \<Rightarrow> None | Some rest \<Rightarrow> Some (f rest caps))"
proof (induction r rule: find_close.induct)
  case (1 x y ys)
  show ?case
  proof (cases "x = 0x2A \<and> y = 0x2F")
    case True
    then show ?thesis by simp
  next
    case False
    with 1 show ?thesis by auto
  qed
qed simp_all

lemma re_exec_block:
  "re_exec re_block s =
     (case s of
        x # y # ys \<Rightarrow>
          if x = 0x2F \<and> y = 0x2A
          then (case find_close ys of None \<Rightarrow> None | Some rest \<Rightarrow> Some (length s - length rest, []))
          else None
      | _ \<Rightarrow> None)"
proof (cases s)
  case Nil
  then show ?thesis by (simp add: re_exec_def re_block_def)
next
  case (Cons x xs)
  show ?thesis
  proof (cases xs)
    case Nil
    with Cons show ?thesis by (simp add: re_exec_def re_block_def)
  next
    case (Cons y ys)
    with \<open>s = x # xs\<close> have s: "s = x # y # ys" by simp
    show ?thesis
      unfolding s by (simp add: re_exec_def re_block_def m_block_tail split: option.split)
  qed
qed

lemma m_Eol_dropWhile:
  "m Eol (dropWhile (\<lambda>c. \<not> isLineTerminator c) xs) caps k
     = k (dropWhile (\<lambda>c. \<not> isLineTerminator c) xs) caps"
  by (induction xs) auto

lemma m_line_tail:
  "m (Star Dot) r caps (\<lambda>s3 c3. m Eol s3 c3 k) = k (dropWhile (\<lambda>c. \<not> isLineTerminator c) r) caps"
proof (induction r)
  case Nil
  show ?case by simp
next
  case (Cons x xs)
  show ?case
  proof (cases "isLineTerminator x")
    case True
    then show ?thesis by simp
  next
    case False
    then show ?thesis
      using Cons.IH m_Eol_dropWhile [of xs caps k]
      by (cases "k (dropWhile (\<lambda>c. \<not> isLineTerminator c) xs) caps") auto
  qed
qed

text \<open>A line comment always matches: the star takes the rest of the line.\<close>

lemma re_exec_line:
  "re_exec re_line s =
     (case s of
        x # y # ys \<Rightarrow>
          if x = 0x2F \<and> y = 0x2F
          then Some (length s - length (dropWhile (\<lambda>c. \<not> isLineTerminator c) ys), [])
          else None
      | _ \<Rightarrow> None)"
  unfolding re_exec_def re_line_def
  by (auto simp: m_line_tail split: list.splits)

lemma replace_all_Nil: "re_exec r [] = None \<Longrightarrow> replace_all r rp [] = []"
  by (simp add: replace_all_def)

lemma replace_all_skip:
  "re_exec r (x # xs) = None \<Longrightarrow> replace_all r rp (x # xs) = x # replace_all r rp xs"
  by (simp add: replace_all_def)

lemma replace_all_match:
  "re_exec r (x # xs) = Some (n, caps) \<Longrightarrow> 0 < n \<Longrightarrow>
   replace_all r rp (x # xs) = expand rp caps @ replace_all r rp (drop n (x # xs))"
  by (simp add: replace_all_def)

lemma drop_find_close:
  assumes "find_close ys = Some rest"
  shows "drop (length (x # y # ys) - length rest) (x # y # ys) = rest \<and>
         0 < length (x # y # ys) - length rest"
proof -
  from find_close_suffix [OF assms] obtain p where p: "ys = p @ rest" by blast
  then show ?thesis by simp
qed

lemma replace_block_spec: "replace_all re_block [] t = strip_block_spec t"
proof (induction t rule: strip_block_spec.induct)
  case 1
  show ?case by (simp add: replace_all_Nil re_exec_block)
next
  case (2 x)
  show ?case by (simp add: replace_all_skip replace_all_Nil re_exec_block)
next
  case (3 x y ys)
  show ?case
  proof (cases "x = 0x2F \<and> y = 0x2A")
    case False
    then have "re_exec re_block (x # y # ys) = None" by (auto simp: re_exec_block)
    with 3 False show ?thesis by (auto simp: replace_all_skip)
  next
    case True
    show ?thesis
    proof (cases "find_close ys")
      case None
      with True have "re_exec re_block (x # y # ys) = None" by (simp add: re_exec_block)
      with 3 True None show ?thesis by (simp add: replace_all_skip)
    next
      case (Some rest)
      with True have e: "re_exec re_block (x # y # ys) = Some (length (x # y # ys) - length rest, [])"
        by (simp add: re_exec_block)
      from drop_find_close [OF Some, of x y]
      have d: "drop (length (x # y # ys) - length rest) (x # y # ys) = rest"
        and n: "0 < length (x # y # ys) - length rest" by blast+
      have "replace_all re_block [] (x # y # ys) = replace_all re_block [] rest"
        using replace_all_match [OF e n, of "[]"] d by simp
      with 3 True Some show ?thesis by simp
    qed
  qed
qed

lemma drop_dropWhile:
  "drop (length (x # y # ys) - length (dropWhile P ys)) (x # y # ys) = dropWhile P ys \<and>
   0 < length (x # y # ys) - length (dropWhile P ys)"
proof -
  have ys: "ys = takeWhile P ys @ dropWhile P ys" by simp
  have "length ys = length (takeWhile P ys) + length (dropWhile P ys)"
    by (subst ys) (simp only: length_append)
  then have e: "length (x # y # ys) - length (dropWhile P ys) = Suc (Suc (length (takeWhile P ys)))"
    by simp
  have "drop (length (takeWhile P ys)) ys = dropWhile P ys"
    by (metis append_eq_conv_conj takeWhile_dropWhile_id)
  then show ?thesis
    unfolding e by simp
qed

lemma replace_line_spec: "replace_all re_line [] t = strip_line_spec t"
proof (induction t rule: strip_line_spec.induct)
  case 1
  show ?case by (simp add: replace_all_Nil re_exec_line)
next
  case (2 x)
  show ?case by (simp add: replace_all_skip replace_all_Nil re_exec_line)
next
  case (3 x y ys)
  show ?case
  proof (cases "x = 0x2F \<and> y = 0x2F")
    case False
    then have "re_exec re_line (x # y # ys) = None" by (auto simp: re_exec_line)
    with 3 False show ?thesis by (auto simp: replace_all_skip)
  next
    case True
    let ?rest = "dropWhile (\<lambda>c. \<not> isLineTerminator c) ys"
    from True have e: "re_exec re_line (x # y # ys) = Some (length (x # y # ys) - length ?rest, [])"
      by (simp add: re_exec_line)
    from drop_dropWhile [of x y ys "\<lambda>c. \<not> isLineTerminator c"]
    have d: "drop (length (x # y # ys) - length ?rest) (x # y # ys) = ?rest"
      and n: "0 < length (x # y # ys) - length ?rest" by blast+
    have "replace_all re_line [] (x # y # ys) = replace_all re_line [] ?rest"
      using replace_all_match [OF e n, of "[]"] d by simp
    with 3 True show ?thesis by simp
  qed
qed

lemma stripComments_refines: "stripComments t = strip_line_spec (strip_block_spec t)"
  by (simp add: stripComments_def replace_block_spec replace_line_spec)

lemma re_scan_src: "concat (map seg_src (re_scan r t)) = t"
proof (induction r t rule: re_scan.induct)
  case (1 r)
  show ?case by (auto split: option.splits)
next
  case (2 r x xs)
  show ?case
  proof (cases "re_exec r (x # xs)")
    case None
    with 2 show ?thesis by simp
  next
    case (Some p)
    obtain n caps where p: "p = (n, caps)" by (cases p)
    show ?thesis
    proof (cases "n = 0")
      case True
      with 2 Some p show ?thesis by simp
    next
      case False
      with 2(3) [OF Some p [symmetric]] have "concat (map seg_src (re_scan r (drop n (x # xs)))) = drop n (x # xs)"
        by simp
      then have "concat (map seg_src (re_scan r (x # xs))) = take n (x # xs) @ drop n (x # xs)"
        using Some p False by simp
      then show ?thesis by (simp only: append_take_drop_id)
    qed
  qed
qed

lemma find_close_take:
  "find_close s = Some r \<Longrightarrow> find_close (take (length s - length r) s) = Some []"
proof (induction s rule: find_close.induct)
  case (1 x y ys)
  show ?case
  proof (cases "x = 0x2A \<and> y = 0x2F")
    case True
    with 1 have "r = ys" by simp
    with True show ?thesis by simp
  next
    case False
    with 1 have f: "find_close (y # ys) = Some r" by simp
    from find_close_suffix [OF f] obtain p where p: "y # ys = p @ r" "2 \<le> length p" by blast
    have l1: "length (y # ys) - length r = length p" using p(1) by (metis add_diff_cancel_right' length_append)
    have "x # y # ys = (x # p) @ r" using p(1) by simp
    then have l2: "length (x # y # ys) - length r = length (x # p)"
      by (metis add_diff_cancel_right' length_append)
    have t1: "take (length (y # ys) - length r) (y # ys) = p"
      unfolding l1 using p(1) by simp
    have t2: "take (length (x # y # ys) - length r) (x # y # ys) = x # p"
      unfolding l2 using p(1) by simp
    have "find_close p = Some []"
      using 1 False f t1 by simp
    moreover obtain z q where "p = y # z # q"
      using p by (cases p; cases "tl p") auto
    ultimately have "find_close (x # p) = Some []" using False by simp
    then show ?thesis unfolding t2 .
  qed
qed simp_all

lemma re_scan_block_comments:
  "Match c caps \<in> set (re_scan re_block t) \<Longrightarrow> is_block_comment c"
proof (induction t rule: strip_block_spec.induct)
  case 1
  then show ?case by (simp add: re_exec_block)
next
  case (2 x)
  then show ?case by (simp add: re_exec_block)
next
  case (3 x y ys)
  show ?case
  proof (cases "x = 0x2F \<and> y = 0x2A")
    case False
    then have "re_exec re_block (x # y # ys) = None" by (auto simp: re_exec_block)
    with 3 False show ?thesis by auto
  next
    case True
    show ?thesis
    proof (cases "find_close ys")
      case None
      with True have "re_exec re_block (x # y # ys) = None" by (simp add: re_exec_block)
      with 3 True None show ?thesis by auto
    next
      case (Some rest)
      let ?n = "length (x # y # ys) - length rest"
      from Some True have e: "re_exec re_block (x # y # ys) = Some (?n, [])"
        by (simp add: re_exec_block)
      from drop_find_close [OF Some, of x y]
      have d: "drop ?n (x # y # ys) = rest" and n: "0 < ?n" by blast+
      from find_close_suffix [OF Some] obtain p where p: "ys = p @ rest" by blast
      have tk: "take ?n (x # y # ys) = x # y # take (length ys - length rest) ys"
        using p by simp
      have "is_block_comment (take ?n (x # y # ys))"
        unfolding tk is_block_comment_def using True find_close_take [OF Some] by simp
      moreover have "re_scan re_block (x # y # ys) = Match (take ?n (x # y # ys)) [] # re_scan re_block rest"
        using e n d by simp
      ultimately show ?thesis using 3 True Some by auto
    qed
  qed
qed

lemma strip_line_spec_terminators:
  "filter isLineTerminator (strip_line_spec u) = filter isLineTerminator u"
proof (induction u rule: strip_line_spec.induct)
  case (3 x y ys)
  show ?case
  proof (cases "x = 0x2F \<and> y = 0x2F")
    case False
    with 3 show ?thesis by auto
  next
    case True
    have tw: "filter isLineTerminator (takeWhile (\<lambda>c. \<not> isLineTerminator c) ys) = []"
      by (induction ys) auto
    have "filter isLineTerminator ys =
          filter isLineTerminator (takeWhile (\<lambda>c. \<not> isLineTerminator c) ys @ dropWhile (\<lambda>c. \<not> isLineTerminator c) ys)"
      by simp
    also have "\<dots> = filter isLineTerminator (dropWhile (\<lambda>c. \<not> isLineTerminator c) ys)"
      unfolding filter_append tw by simp
    finally have ys: "filter isLineTerminator ys =
        filter isLineTerminator (dropWhile (\<lambda>c. \<not> isLineTerminator c) ys)" .
    have nl: "\<not> isLineTerminator 0x2F" by (simp add: isLineTerminator_def)
    show ?thesis using 3 True nl ys by simp
  qed
qed simp_all

section \<open>Texts with comments added\<close>

lemma find_close_append: "find_close b = Some [] \<Longrightarrow> find_close (b @ q) = Some q"
proof (induction b rule: find_close.induct)
  case (1 x y ys)
  show ?case
  proof (cases "x = 0x2A \<and> y = 0x2F")
    case True
    with 1(2) show ?thesis by simp
  next
    case False
    with 1 have "find_close ((y # ys) @ q) = Some q" by simp
    with False show ?thesis by auto
  qed
qed simp_all

lemma has_pair_Cons: "\<not> has_pair a b (x # s) \<Longrightarrow> \<not> has_pair a b s"
  by (cases s) auto

lemma strip_block_spec_id: "\<not> has_pair 0x2F 0x2A s \<Longrightarrow> strip_block_spec s = s"
  by (induction s rule: strip_block_spec.induct) auto

lemma strip_line_spec_id: "\<not> has_pair 0x2F 0x2F s \<Longrightarrow> strip_line_spec s = s"
  by (induction s rule: strip_line_spec.induct) auto

lemma strip_block_spec_insert:
  assumes "is_block_comment bc" "\<not> has_pair 0x2F 0x2A (p @ q)"
  shows "strip_block_spec (p @ bc @ q) = p @ q"
  using assms(2)
proof (induction p)
  case Nil
  from assms(1) obtain b where bc: "bc = 0x2F # 0x2A # b" and b: "find_close b = Some []"
    unfolding is_block_comment_def by (cases bc; cases "tl bc") auto
  from Nil have "strip_block_spec q = q" by (simp add: strip_block_spec_id)
  then show ?case using bc find_close_append [OF b, of q] by simp
next
  case (Cons x p)
  from Cons.prems have np: "\<not> has_pair 0x2F 0x2A (p @ q)" using has_pair_Cons by fastforce
  from assms(1) obtain b where bc: "bc = 0x2F # 0x2A # b"
    unfolding is_block_comment_def by (cases bc; cases "tl bc") auto
  obtain y ys where ys: "p @ bc @ q = y # ys" using bc by (cases p) auto
  have "\<not> (x = 0x2F \<and> y = 0x2A)"
  proof (cases p)
    case Nil
    with ys bc show ?thesis by simp
  next
    case (Cons z zs)
    with ys have "y = z" by simp
    with Cons.prems Cons show ?thesis by auto
  qed
  then have "strip_block_spec (x # y # ys) = x # strip_block_spec (y # ys)" by auto
  with ys Cons.IH [OF np] show ?case by simp
qed

lemma dropWhile_line_body:
  assumes "list_all (\<lambda>x. \<not> isLineTerminator x) body" "b = [] \<or> isLineTerminator (hd b)"
  shows "dropWhile (\<lambda>c. \<not> isLineTerminator c) (body @ b) = b"
proof -
  have "dropWhile (\<lambda>c. \<not> isLineTerminator c) (body @ b) = dropWhile (\<lambda>c. \<not> isLineTerminator c) b"
    using assms(1) by (induction body) auto
  also have "\<dots> = b" using assms(2) by (cases b) auto
  finally show ?thesis .
qed

lemma strip_line_spec_insert:
  assumes "is_line_comment lc" "b = [] \<or> isLineTerminator (hd b)"
    and "\<not> has_pair 0x2F 0x2F (a @ b)" "a = [] \<or> last a \<noteq> 0x2F"
  shows "strip_line_spec (a @ lc @ b) = a @ b"
  using assms(3,4)
proof (induction a)
  case Nil
  from assms(1) obtain body where lc: "lc = 0x2F # 0x2F # body"
    and body: "list_all (\<lambda>x. \<not> isLineTerminator x) body"
    unfolding is_line_comment_def by (cases lc; cases "tl lc") auto
  from Nil have "strip_line_spec b = b" by (simp add: strip_line_spec_id)
  then show ?case using lc dropWhile_line_body [OF body assms(2)] by simp
next
  case (Cons x a)
  from Cons.prems(1) have np: "\<not> has_pair 0x2F 0x2F (a @ b)" using has_pair_Cons by fastforce
  from Cons.prems(2) have la: "a = [] \<or> last a \<noteq> 0x2F" by (auto split: if_splits)
  from assms(1) obtain body where lc: "lc = 0x2F # 0x2F # body"
    unfolding is_line_comment_def by (cases lc; cases "tl lc") auto
  obtain y ys where ys: "a @ lc @ b = y # ys" using lc by (cases a) auto
  have "\<not> (x = 0x2F \<and> y = 0x2F)"
  proof (cases a)
    case Nil
    with Cons.prems(2) show ?thesis by simp
  next
    case (Cons z zs)
    with ys have "y = z" by simp
    with Cons.prems(1) Cons show ?thesis by auto
  qed
  then have "strip_line_spec (x # y # ys) = x # strip_line_spec (y # ys)" by auto
  with ys Cons.IH [OF np la] show ?case by simp
qed

lemma cls_closer [simp]: "cls_match (Alt [Lit 0x7D, Lit 0x5D]) d = isCloser d"
  by (auto simp: isCloser_def)

lemma m_comma_tail:
  "m (Star (Lit 0x73)) r caps (\<lambda>s' c'. m (Atom (Alt [Lit 0x7D, Lit 0x5D])) s' c' k) =
     (case dropWhile (\<lambda>x. x = 0x73) r of
        [] \<Rightarrow> None
      | d # rest \<Rightarrow> if isCloser d then k rest caps else None)"
proof (induction r)
  case Nil
  show ?case by simp
next
  case (Cons x xs)
  show ?case
  proof (cases "x = 0x73")
    case True
    have nc: "\<not> isCloser 0x73" by (simp add: isCloser_def)
    show ?thesis using True Cons nc by (simp split: option.split)
  next
    case False
    then show ?thesis by (auto simp: isCloser_def)
  qed
qed

lemma re_exec_comma_js:
  "re_exec re_comma_js s =
     (case s of
        [] \<Rightarrow> None
      | c # r \<Rightarrow>
          if c = 0x2C then
            (case dropWhile (\<lambda>x. x = 0x73) r of
               [] \<Rightarrow> None
             | d # rest \<Rightarrow>
                 if isCloser d then Some (length s - length rest, [take (length r - length rest) r])
                 else None)
          else None)"
proof (cases s)
  case Nil
  then show ?thesis by (simp add: re_exec_def re_comma_js_def)
next
  case (Cons c r)
  show ?thesis
  proof (cases "dropWhile (\<lambda>x. x = 0x73) r")
    case Nil
    show ?thesis
      unfolding Cons Nil m_comma_tail re_exec_def re_comma_js_def m.simps by (simp add: Nil)
  next
    case (Cons d rest)
    then show ?thesis
      unfolding \<open>s = c # r\<close> by (simp add: re_exec_def re_comma_js_def m_comma_tail)
  qed
qed

lemma matches_nowhere_id: "matches_nowhere r s \<Longrightarrow> replace_all r rp s = s"
  by (induction s) (auto simp: replace_all_Nil replace_all_skip)

lemma dropWhile_append_cases:
  "dropWhile P (xs @ ys) = (if list_all P xs then dropWhile P ys else dropWhile P xs @ ys)"
  by (induction xs) auto

lemma re_exec_comma_js_insert:
  assumes "re_exec re_comma_js (x @ 0x7D # y) = None" "x \<noteq> []"
  shows "re_exec re_comma_js (x @ 0x2C # 0x7D # y) = None"
proof -
  from assms(2) obtain c r where x: "x = c # r" by (cases x) auto
  show ?thesis
  proof (cases "c = 0x2C")
    case False
    then show ?thesis unfolding x by (simp add: re_exec_comma_js)
  next
    case True
    have nc: "\<not> isCloser 0x2C" "isCloser 0x7D" "(0x2C::nat) \<noteq> 0x73" "(0x7D::nat) \<noteq> 0x73"
      by (simp_all add: isCloser_def)
    show ?thesis
    proof (cases "list_all (\<lambda>x. x = 0x73) r")
      case True
      then show ?thesis unfolding x using \<open>c = 0x2C\<close> nc
        by (simp add: re_exec_comma_js dropWhile_append_cases)
    next
      case False
      then obtain d rest where d: "dropWhile (\<lambda>x. x = 0x73) r = d # rest"
        by (cases "dropWhile (\<lambda>x. x = 0x73) r") (auto simp: dropWhile_eq_Nil_conv list_all_iff)
      from assms(1) have "\<not> isCloser d"
        unfolding x using \<open>c = 0x2C\<close> False d
        by (auto simp: re_exec_comma_js dropWhile_append_cases split: if_splits)
      then show ?thesis unfolding x using \<open>c = 0x2C\<close> False d
        by (simp add: re_exec_comma_js dropWhile_append_cases)
    qed
  qed
qed

lemma replace_comma_js_insert:
  assumes "matches_nowhere re_comma_js (x @ 0x7D # y)"
  shows "replace_all re_comma_js [RCap 1] (x @ 0x2C # 0x7D # y) = x @ 0x7D # y"
  using assms
proof (induction x)
  case Nil
  have nc: "isCloser 0x7D" "(0x7D::nat) \<noteq> 0x73" by (simp_all add: isCloser_def)
  have e: "re_exec re_comma_js (0x2C # 0x7D # y) = Some (2, [[0x7D]])"
    using nc by (simp add: re_exec_comma_js)
  from Nil have "matches_nowhere re_comma_js y" by simp
  then have "replace_all re_comma_js [RCap 1] y = y" by (rule matches_nowhere_id)
  then show ?case using replace_all_match [OF e, of "[RCap 1]"] by simp
next
  case (Cons c x)
  from Cons.prems have n: "re_exec re_comma_js ((c # x) @ 0x7D # y) = None"
    and m: "matches_nowhere re_comma_js (x @ 0x7D # y)" by simp_all
  from re_exec_comma_js_insert [OF n] have "re_exec re_comma_js (c # x @ 0x2C # 0x7D # y) = None" by simp
  then show ?case using Cons.IH [OF m] by (simp add: replace_all_skip)
qed

section \<open>Properties of the injection\<close>

lemma map_of_replace_prop:
  "map_of ps k \<noteq> None \<Longrightarrow> map_of (replace_prop k v ps) k' = (if k' = k then Some v else map_of ps k')"
  by (induction ps) auto

lemma map_of_insert_index:
  "map_of ps k = None \<Longrightarrow> map_of (insert_index k v ps) k' = (if k' = k then Some v else map_of ps k')"
  by (induction ps) (auto split: if_splits)

lemma map_of_append_new:
  "map_of ps k = None \<Longrightarrow> map_of (ps @ [(k, v)]) k' = (if k' = k then Some v else map_of ps k')"
  by (induction ps) (auto split: if_splits)

lemma map_of_obj_set: "map_of (obj_set k v ps) k' = (if k' = k then Some v else map_of ps k')"
  unfolding obj_set_def
  using map_of_replace_prop [of ps k v k'] map_of_insert_index [of ps k v k'] map_of_append_new [of ps k v k']
  by (cases "map_of ps k") (auto simp del: map_of_append)

lemma map_of_replace_prop_any:
  "map_of (replace_prop k v ps) k' = (if k' = k \<and> map_of ps k \<noteq> None then Some v else map_of ps k')"
  by (induction ps) auto


abbreviation "co \<equiv> str ''compilerOptions''"
abbreviation "bu \<equiv> str ''baseUrl''"
abbreviation "pa \<equiv> str ''paths''"

lemma keys_neq: "bu \<noteq> pa" "co \<noteq> bu" "co \<noteq> pa" "\<not> isArrayIndex co" "\<not> isArrayIndex bu" "\<not> isArrayIndex pa"
  by (simp_all add: str_def isArrayIndex_def isDigit_def)

lemma get_path_set_prop:
  assumes "set_prop c k v = Inr c'" "k2 \<noteq> k" "\<not> isArrayIndex k"
  shows "get_path c' (k2 # ks) = get_path c (k2 # ks)"
  using assms by (cases c) (auto simp: map_of_obj_set)

lemma get_path_set_prop_same:
  assumes "set_prop c k v = Inr c'" "isObject c" "\<not> isArrayIndex k"
  shows "get_path c' [k] = Some v"
  using assms by (cases c) (auto simp: map_of_obj_set)

lemma get_path_set_prop2_other:
  assumes "set_prop2 D k1 k2 v = Inr D'" "k \<noteq> k1"
  shows "get_path D' (k # ks) = get_path D (k # ks)"
  using assms unfolding set_prop2_def
  by (cases D) (auto simp: map_of_replace_prop_any split: sum.splits option.splits)

lemma get_path_set_prop2_same:
  assumes "set_prop2 D k1 k2 v = Inr D'" "\<not> isArrayIndex k1"
  shows "\<exists>c c'. get_path D [k1] = Some c \<and> set_prop c k2 v = Inr c' \<and> get_path D' [k1] = Some c'"
  using assms unfolding set_prop2_def
  by (cases D) (auto simp: map_of_replace_prop_any split: sum.splits option.splits)

lemma get_path_Cons: "get_path D [k] = Some c \<Longrightarrow> get_path D (k # ks) = get_path c ks"
  by (cases D) (auto split: option.splits if_splits)

lemma get_path_ensure_other:
  assumes "ensureCompilerOptions D = Inr D'" "k \<noteq> co"
  shows "get_path D' (k # ks) = get_path D (k # ks)"
  using assms unfolding ensureCompilerOptions_def
  by (cases D) (auto simp: map_of_obj_set split: sum.splits option.splits if_splits)

lemma get_path_ensure_same:
  assumes "ensureCompilerOptions D = Inr D'" "get_path D [co] = Some c" "isObject c"
  shows "D' = D"
  using assms keys_neq unfolding ensureCompilerOptions_def
  by (cases D; cases c) (auto simp: map_of_obj_set split: sum.splits option.splits if_splits)

lemma injectPathAlias_frame_path:
  assumes inj: "injectPathAlias D = Inr D'"
    and p: "get_path D p = Some V"
    and ex: "p \<noteq> []" "p \<noteq> [co]" "take 2 p \<noteq> [co, bu]" "take 2 p \<noteq> [co, pa]"
  shows "get_path D' p = Some V"
proof -
  from inj obtain A1 A2 where
    a1: "ensureCompilerOptions D = Inr A1" and
    a2: "set_prop2 A1 co bu (JStr (str ''.'')) = Inr A2" and
    a3: "set_prop2 A2 co pa pathAlias = Inr D'"
    unfolding injectPathAlias_def by (auto split: sum.splits)
  from ex(1) obtain k ks where pk: "p = k # ks" by (cases p) auto
  show ?thesis
  proof (cases "k = co")
    case False
    then show ?thesis
      using get_path_ensure_other [OF a1] get_path_set_prop2_other [OF a2] get_path_set_prop2_other [OF a3] p pk
      by simp
  next
    case True
    with ex(2) pk obtain k2 ks2 where ks: "ks = k2 # ks2" by (cases ks) auto
    from ex(3,4) pk True ks have k2: "k2 \<noteq> bu" "k2 \<noteq> pa" by auto
    from p pk True obtain c where c: "get_path D [co] = Some c"
      by (cases D) (auto split: option.splits if_splits simp: keys_neq)
    with p pk True have pc: "get_path c ks = Some V"
      using get_path_Cons [OF c] by simp
    with ks have oc: "isObject c" by (cases c) auto
    from get_path_ensure_same [OF a1 c oc] have "A1 = D" .
    with a2 have a2': "set_prop2 D co bu (JStr (str ''.'')) = Inr A2" by simp
    from get_path_set_prop2_same [OF a2' keys_neq(4)] c obtain c2 where
      c2: "set_prop c bu (JStr (str ''.'')) = Inr c2" "get_path A2 [co] = Some c2" by auto
    from get_path_set_prop2_same [OF a3 keys_neq(4)] c2 obtain c3 where
      c3: "set_prop c2 pa pathAlias = Inr c3" "get_path D' [co] = Some c3" by auto
    have "get_path D' p = get_path c3 ks"
      using get_path_Cons [OF c3(2)] pk True by simp
    also have "\<dots> = get_path c2 ks"
      unfolding ks using get_path_set_prop [OF c3(1) k2(2) keys_neq(6)] .
    also have "\<dots> = get_path c ks"
      unfolding ks using get_path_set_prop [OF c2(1) k2(1) keys_neq(5)] .
    finally show ?thesis using pc by simp
  qed
qed

text \<open>On an object the three statements never throw.\<close>

lemma ensure_obj:
  "\<exists>ps1 c1. ensureCompilerOptions (JObj ps) = Inr (JObj ps1) \<and> map_of ps1 co = Some c1 \<and>
     (if truthy (map_of ps co) then ps1 = ps else c1 = JObj [])"
  unfolding ensureCompilerOptions_def
  by (cases "map_of ps co") (auto simp: map_of_obj_set)

lemma truthy_not_null: "truthy (Some c) \<Longrightarrow> c \<noteq> JNull"
  by (cases c) auto

lemma set_prop_not_null: "c \<noteq> JNull \<Longrightarrow> \<exists>c'. set_prop c k v = Inr c' \<and> c' \<noteq> JNull \<and> (isObject c' \<longleftrightarrow> isObject c)"
  by (cases c) auto

lemma set_prop2_obj:
  assumes "map_of ps k1 = Some c" "c \<noteq> JNull"
  shows "\<exists>c'. set_prop c k2 v = Inr c' \<and> set_prop2 (JObj ps) k1 k2 v = Inr (JObj (replace_prop k1 c' ps))"
  using assms set_prop_not_null [OF assms(2), of k2 v] unfolding set_prop2_def by auto

lemma injectPathAlias_obj:
  "\<exists>ps1 c1 c2 c3. ensureCompilerOptions (JObj ps) = Inr (JObj ps1) \<and> map_of ps1 co = Some c1 \<and>
     (if truthy (map_of ps co) then ps1 = ps else c1 = JObj []) \<and>
     set_prop c1 bu (JStr (str ''.'')) = Inr c2 \<and> set_prop c2 pa pathAlias = Inr c3 \<and>
     injectPathAlias (JObj ps) = Inr (JObj (replace_prop co c3 (replace_prop co c2 ps1)))"
proof -
  from ensure_obj [of ps] obtain ps1 c1 where
    e: "ensureCompilerOptions (JObj ps) = Inr (JObj ps1)" "map_of ps1 co = Some c1"
       "if truthy (map_of ps co) then ps1 = ps else c1 = JObj []" by blast
  have n1: "c1 \<noteq> JNull"
    using e(2,3) truthy_not_null [of c1] by (auto split: if_splits)
  from set_prop2_obj [OF e(2) n1, of bu "JStr (str ''.'')"] obtain c2 where
    c2: "set_prop c1 bu (JStr (str ''.'')) = Inr c2"
        "set_prop2 (JObj ps1) co bu (JStr (str ''.'')) = Inr (JObj (replace_prop co c2 ps1))" by blast
  have n2: "c2 \<noteq> JNull" using c2(1) n1 by (cases c1) auto
  have m2: "map_of (replace_prop co c2 ps1) co = Some c2"
    using e(2) by (simp add: map_of_replace_prop_any)
  from set_prop2_obj [OF m2 n2, of pa pathAlias] obtain c3 where
    c3: "set_prop c2 pa pathAlias = Inr c3"
        "set_prop2 (JObj (replace_prop co c2 ps1)) co pa pathAlias
           = Inr (JObj (replace_prop co c3 (replace_prop co c2 ps1)))" by blast
  have "injectPathAlias (JObj ps) = Inr (JObj (replace_prop co c3 (replace_prop co c2 ps1)))"
    unfolding injectPathAlias_def using e(1) c2(2) c3(2) by simp
  with e c2(1) c3(1) show ?thesis by blast
qed

subsection \<open>The patched document, written out\<close>

lemma replace_prop_same: "map_of ps k = Some c \<Longrightarrow> replace_prop k c ps = ps"
  by (induction ps) (auto split: if_splits)

lemma replace_prop_twice: "replace_prop k a (replace_prop k b ps) = replace_prop k a ps"
  by (induction ps) auto

lemma set_props_with_alias:
  assumes "c \<noteq> JNull" "set_prop c bu (JStr (str ''.'')) = Inr c2" "set_prop c2 pa pathAlias = Inr c3"
  shows "c3 = with_alias c"
  using assms by (cases c) auto

lemma ensure_obj_form:
  "ensureCompilerOptions (JObj ps) =
     Inr (JObj (if truthy (map_of ps co) then ps else obj_set co (JObj []) ps))"
  by (simp add: ensureCompilerOptions_def)

lemma injectPathAlias_obj_form:
  "injectPathAlias (JObj ps) = Inr (JObj
     (if truthy (map_of ps co) then replace_prop co (with_alias (the (map_of ps co))) ps
      else replace_prop co (with_alias (JObj [])) (obj_set co (JObj []) ps)))"
proof -
  from injectPathAlias_obj [of ps] obtain ps1 c1 c2 c3 where
    e: "ensureCompilerOptions (JObj ps) = Inr (JObj ps1)" "map_of ps1 co = Some c1"
       "if truthy (map_of ps co) then ps1 = ps else c1 = JObj []" and
    c2: "set_prop c1 bu (JStr (str ''.'')) = Inr c2" and
    c3: "set_prop c2 pa pathAlias = Inr c3" and
    i: "injectPathAlias (JObj ps) = Inr (JObj (replace_prop co c3 (replace_prop co c2 ps1)))"
    by blast
  have n1: "c1 \<noteq> JNull"
    using e(2,3) truthy_not_null [of c1] by (auto split: if_splits)
  have w: "c3 = with_alias c1" using set_props_with_alias [OF n1 c2 c3] .
  have p: "ps1 = (if truthy (map_of ps co) then ps else obj_set co (JObj []) ps)"
    using e(1) ensure_obj_form [of ps] by simp
  show ?thesis
  proof (cases "truthy (map_of ps co)")
    case True
    with e p have "ps1 = ps" "map_of ps co = Some c1" by simp_all
    with i w True show ?thesis by (simp add: replace_prop_twice)
  next
    case False
    with e p have "ps1 = obj_set co (JObj []) ps" "c1 = JObj []" by simp_all
    with i w False show ?thesis by (simp add: replace_prop_twice)
  qed
qed

lemma map_of_patched_co:
  "\<exists>ps'. injectPathAlias (JObj ps) = Inr (JObj ps') \<and>
     map_of ps' co = Some (with_alias (if truthy (map_of ps co) then the (map_of ps co) else JObj [])) \<and>
     (\<forall>k. k \<noteq> co \<longrightarrow> map_of ps' k = map_of ps k)"
proof (cases "truthy (map_of ps co)")
  case True
  then obtain c where c: "map_of ps co = Some c" by (cases "map_of ps co") auto
  show ?thesis
    using True c injectPathAlias_obj_form [of ps]
    by (simp add: map_of_replace_prop_any)
next
  case False
  show ?thesis
    using False injectPathAlias_obj_form [of ps]
    by (simp add: map_of_replace_prop_any map_of_obj_set)
qed

lemma with_alias_object:
  "with_alias (JObj cps) = JObj cps' \<Longrightarrow>
     map_of cps' bu = Some (JStr (str ''.'')) \<and> map_of cps' pa = Some pathAlias"
  using keys_neq by (auto simp: map_of_obj_set)

lemma with_alias_primitive: "\<not> isObject c \<Longrightarrow> with_alias c = c"
  by (cases c) auto

lemma with_alias_empty:
  "with_alias (JObj []) = JObj [(bu, JStr (str ''.'')), (pa, pathAlias)]"
  using keys_neq by (simp add: obj_set_def)

subsection \<open>What is written for an array with named properties\<close>

lemma replace_prop_Nil: "replace_prop k v ps = [] \<longleftrightarrow> ps = []"
  by (cases ps) (auto split: if_splits)

lemma ser_props_replace:
  assumes "map_of ps k = Some c" "\<And>j. ser j v = ser j c"
  shows "ser_props i (replace_prop k v ps) = ser_props i ps"
  using assms(1)
proof (induction ps)
  case Nil
  then show ?case by simp
next
  case (Cons p ps)
  obtain k' v' where p: "p = (k', v')" by (cases p)
  show ?case
  proof (cases "k' = k")
    case True
    with Cons.prems p have "v' = c" by simp
    with True p assms(2) show ?thesis by simp
  next
    case False
    with Cons.prems p have "map_of ps k = Some c" by simp
    from Cons.IH [OF this] False p show ?thesis by (simp add: replace_prop_Nil)
  qed
qed

lemma ser_array_props: "ser j (JArr es ps) = ser j (JArr es qs)"
  by simp

section \<open>Properties of the setup\<close>

lemma perform_all_append:
  "perform_all E (as @ bs) s =
     (case perform_all E as s of Inl x \<Rightarrow> Inl x | Inr s' \<Rightarrow> perform_all E bs s')"
  by (induction as arbitrary: s) (auto split: sum.splits)

lemma prints_trace: "world (prints as s) = world s"
  by (induction as s rule: prints.induct) (auto simp: emit_def)

section \<open>Writing and reading back\<close>

subsection \<open>The order of array indices\<close>

lemma digits_less_irrefl: "\<not> digits_less a a"
  by (induction a) auto

lemma digits_less_trans: "digits_less a b \<Longrightarrow> digits_less b c \<Longrightarrow> digits_less a c"
proof (induction a b arbitrary: c rule: digits_less.induct)
  case (1 a as b bs)
  then show ?case by (cases c) (auto split: if_splits)
qed simp_all

lemma digits_less_total:
  "length a = length b \<Longrightarrow> a \<noteq> b \<Longrightarrow> digits_less a b \<or> digits_less b a"
proof (induction a b rule: digits_less.induct)
  case (1 a as b bs)
  then show ?case by (cases "a = b") auto
qed auto

lemma numeral_less_irrefl: "\<not> numeral_less a a"
  by (simp add: numeral_less_def digits_less_irrefl)

lemma numeral_less_trans: "numeral_less a b \<Longrightarrow> numeral_less b c \<Longrightarrow> numeral_less a c"
  unfolding numeral_less_def using digits_less_trans by auto

lemma numeral_less_total: "a \<noteq> b \<Longrightarrow> numeral_less a b \<or> numeral_less b a"
  unfolding numeral_less_def using digits_less_total [of a b] by (cases "length a = length b") auto

subsection \<open>Keys in order\<close>

lemma map_fst_replace_prop: "map fst (replace_prop k v ps) = map fst ps"
  by (induction ps) auto

lemma map_of_None_keys: "map_of ps k = None \<longleftrightarrow> k \<notin> set (map fst ps)"
  by (simp add: map_of_eq_None_iff)

lemma set_insert_index: "set (map fst (insert_index k v ps)) = insert k (set (map fst ps))"
proof (induction ps)
  case Nil
  show ?case by simp
next
  case (Cons p ps)
  obtain k' v' where p: "p = (k', v')" by (cases p)
  show ?case
  proof (cases "isArrayIndex k' \<and> numeral_less k' k")
    case True
    then have "insert_index k v (p # ps) = p # insert_index k v ps" by (simp add: p)
    then show ?thesis using Cons.IH by auto
  next
    case False
    then have "insert_index k v (p # ps) = (k, v) # p # ps" by (auto simp: p)
    then show ?thesis by simp
  qed
qed

lemma canonical_insert_index:
  assumes "canonical ps" "map_of ps k = None" "isArrayIndex k"
  shows "canonical (insert_index k v ps)"
  using assms(1,2)
proof (induction ps)
  case Nil
  show ?case by (simp add: canonical_def)
next
  case (Cons p ps)
  obtain k' v' where p: "p = (k', v')" by (cases p)
  from Cons.prems have c: "canonical ps" and n: "map_of ps k = None" and ne: "k \<noteq> k'"
    and nk: "k' \<notin> set (map fst ps)"
    unfolding p canonical_def by (auto split: if_splits)
  show ?case
  proof (cases "isArrayIndex k' \<and> numeral_less k' k")
    case True
    have t: "canonical (insert_index k v ps)" using Cons.IH [OF c n] .
    have h: "k' \<notin> set (map fst (insert_index k v ps))"
      using nk ne by (simp add: set_insert_index del: set_map)
    have nx: "case map fst (insert_index k v ps) of [] \<Rightarrow> True
                | q # qs \<Rightarrow> if isArrayIndex q then isArrayIndex k' \<and> numeral_less k' q else True"
    proof (cases ps)
      case Nil
      then show ?thesis using True by simp
    next
      case (Cons q qs)
      obtain kq vq where q: "q = (kq, vq)" by (cases q)
      show ?thesis
        using Cons.prems(1) True unfolding p Cons q canonical_def
        by (auto split: if_splits)
    qed
    show ?thesis
      unfolding p using True t h nx by (simp add: canonical_def)
  next
    case False
    have "isArrayIndex k' \<Longrightarrow> numeral_less k k'"
      using False numeral_less_total [OF ne] by auto
    then show ?thesis
      unfolding p using False Cons.prems assms(3) ne
      by (auto simp: canonical_def p map_of_eq_None_iff split: if_splits)
  qed
qed

lemma canonical_append_name:
  assumes "canonical ps" "map_of ps k = None" "\<not> isArrayIndex k"
  shows "canonical (ps @ [(k, v)])"
  using assms(1,2)
proof (induction ps)
  case Nil
  show ?case by (simp add: canonical_def)
next
  case (Cons p ps)
  obtain k' v' where p: "p = (k', v')" by (cases p)
  from Cons.prems have c: "canonical ps" and n: "map_of ps k = None" and ne: "k \<noteq> k'"
    unfolding p canonical_def by (auto split: if_splits)
  have t: "canonical (ps @ [(k, v)])" using Cons.IH [OF c n] .
  show ?case
    using Cons.prems t assms(3) ne unfolding p canonical_def
    by (cases ps) (auto simp: map_of_eq_None_iff split: if_splits)
qed

lemma canonical_replace_prop: "canonical ps \<Longrightarrow> canonical (replace_prop k v ps)"
  by (simp add: canonical_def map_fst_replace_prop)

lemma canonical_obj_set: "canonical ps \<Longrightarrow> canonical (obj_set k v ps)"
  unfolding obj_set_def
  using canonical_replace_prop canonical_insert_index canonical_append_name by auto

lemma canonical_keys_last_index:
  "canonical_keys (ks @ [k]) \<Longrightarrow> isArrayIndex k \<Longrightarrow> q \<in> set ks \<Longrightarrow> isArrayIndex q \<and> numeral_less q k"
proof (induction ks arbitrary: q)
  case Nil
  then show ?case by simp
next
  case (Cons x xs)
  show ?case
  proof (cases xs)
    case Nil
    with Cons.prems show ?thesis by auto
  next
    case (Cons y ys)
    from Cons.prems(1) have c: "canonical_keys (xs @ [k])" by simp
    have y: "isArrayIndex y \<and> numeral_less y k"
      using Cons.IH [OF c Cons.prems(2), of y] Cons by simp
    from Cons.prems(1) y Cons have x: "isArrayIndex x \<and> numeral_less x y" by auto
    with y have "isArrayIndex x \<and> numeral_less x k" using numeral_less_trans by blast
    then show ?thesis
      using Cons.prems(3) Cons.IH [OF c Cons.prems(2), of q] by auto
  qed
qed

lemma insert_index_last:
  "\<forall>q \<in> set (map fst ps). isArrayIndex q \<and> numeral_less q k \<Longrightarrow>
   insert_index k v ps = ps @ [(k, v)]"
  by (induction ps) auto

lemma obj_set_append:
  assumes "canonical (ps @ [(k, v)])"
  shows "obj_set k v ps = ps @ [(k, v)]"
proof -
  from assms have ck: "canonical_keys (map fst ps @ [k])" by (simp add: canonical_def)
  have "k \<notin> set (map fst ps)" using ck by (induction ps) (auto split: if_splits)
  then have n: "map_of ps k = None" by (simp add: map_of_eq_None_iff)
  show ?thesis
  proof (cases "isArrayIndex k")
    case True
    have "\<forall>q \<in> set (map fst ps). isArrayIndex q \<and> numeral_less q k"
      using canonical_keys_last_index [OF ck True] by blast
    then show ?thesis using n True by (simp add: obj_set_def insert_index_last)
  next
    case False
    with n show ?thesis by (simp add: obj_set_def)
  qed
qed

lemma canonical_keys_butlast: "canonical_keys (ks @ [k]) \<Longrightarrow> canonical_keys ks"
proof (induction ks)
  case Nil
  show ?case by simp
next
  case (Cons x xs)
  from Cons.prems have t: "canonical_keys (xs @ [k])" and n: "x \<notin> set xs" by simp_all
  show ?case
  proof (cases xs)
    case Nil
    then show ?thesis by simp
  next
    case (Cons y ys)
    with Cons.prems have "if isArrayIndex y then isArrayIndex x \<and> numeral_less x y else True"
      by simp
    with Cons n Cons.IH [OF t] show ?thesis by simp
  qed
qed

lemma canonical_butlast: "canonical (ps @ [p]) \<Longrightarrow> canonical ps"
  unfolding canonical_def using canonical_keys_butlast [of "map fst ps" "fst p"] by simp

lemma canonical_prefix: "canonical (a @ b) \<Longrightarrow> canonical a"
proof (induction b rule: rev_induct)
  case Nil
  then show ?case by simp
next
  case (snoc x xs)
  from snoc.prems have "canonical ((a @ xs) @ [x])" by simp
  then have "canonical (a @ xs)" by (rule canonical_butlast)
  then show ?case by (rule snoc.IH)
qed

lemma map_fst_erase_props: "map fst (erase_props ps) = map fst ps"
  by (induction ps) auto

lemma canonical_erase_props: "canonical (erase_props ps) = canonical ps"
  by (simp add: canonical_def map_fst_erase_props)

subsection \<open>The grammar on the tokens of a value\<close>

lemma toks_first: "\<exists>t r. toks v = t # r \<and> t \<noteq> TRBracket"
  by (cases v) auto

lemma step_first_elem:
  "foldl (step rd) (SFirstElem st) (toks v @ ts) = foldl (step rd) (SValue (InArr [] # st)) (toks v @ ts)"
proof -
  from toks_first [of v] obtain t r where "toks v = t # r" "t \<noteq> TRBracket" by blast
  then show ?thesis by simp
qed

lemma parse_toks:
  shows "ordered v \<Longrightarrow> finite_numbers rd v \<Longrightarrow>
           foldl (step rd) (SValue st) (toks v @ ts) = foldl (step rd) (deliver (erase v) st) ts"
    and "ordered_list es \<Longrightarrow> finite_numbers_list rd es \<Longrightarrow> es \<noteq> [] \<Longrightarrow>
           foldl (step rd) (SValue (InArr acc # st)) (toks_elems es @ TRBracket # ts)
             = foldl (step rd) (deliver (JArr (acc @ erase_list es) []) st) ts"
    and "ordered_props ps \<Longrightarrow> finite_numbers_props rd ps \<Longrightarrow> ps \<noteq> [] \<Longrightarrow>
         canonical (pacc @ erase_props ps) \<Longrightarrow>
           foldl (step rd) (SKey pacc st) (toks_props ps @ TRBrace # ts)
             = foldl (step rd) (deliver (JObj (pacc @ erase_props ps)) st) ts"
proof (induction v and es and ps arbitrary: st ts and acc st ts and pacc st ts
       rule: toks_toks_elems_toks_props.induct)
  case 1
  show ?case by simp
next
  case (2 b)
  show ?case by simp
next
  case (3 t)
  then show ?case by simp
next
  case (4 t)
  show ?case by simp
next
  case (5 es ps)
  show ?case
  proof (cases es)
    case Nil
    then show ?thesis by simp
  next
    case (Cons e es')
    have "foldl (step rd) (SValue st) (toks (JArr es ps) @ ts)
        = foldl (step rd) (SFirstElem st) (toks_elems es @ TRBracket # ts)" by simp
    also have "\<dots> = foldl (step rd) (SValue (InArr [] # st)) (toks_elems es @ TRBracket # ts)"
      unfolding Cons using step_first_elem [of rd st e] by simp
    also have "\<dots> = foldl (step rd) (deliver (JArr ([] @ erase_list es) []) st) ts"
      using 5 Cons by simp
    finally show ?thesis by simp
  qed
next
  case (6 ps)
  show ?case
  proof (cases ps)
    case Nil
    then show ?thesis by simp
  next
    case (Cons p ps')
    from 6(2) have c: "canonical ([] @ erase_props ps)" by (simp add: canonical_erase_props)
    have "foldl (step rd) (SValue st) (toks (JObj ps) @ ts)
        = foldl (step rd) (SFirstKey st) (toks_props ps @ TRBrace # ts)" by simp
    also have "\<dots> = foldl (step rd) (SKey [] st) (toks_props ps @ TRBrace # ts)"
      unfolding Cons by simp
    also have "\<dots> = foldl (step rd) (deliver (JObj ([] @ erase_props ps)) st) ts"
      using 6 Cons c by simp
    finally show ?thesis by simp
  qed
next
  case 7
  then show ?case by simp
next
  case (8 e es)
  from 8(3,4) have oe: "ordered e" "finite_numbers rd e" by simp_all
  have "foldl (step rd) (SValue (InArr acc # st)) (toks_elems (e # es) @ TRBracket # ts)
      = foldl (step rd) (SValue (InArr acc # st))
          (toks e @ ((if es = [] then [] else TComma # toks_elems es) @ TRBracket # ts))" by simp
  also have "\<dots> = foldl (step rd) (SArrRest (acc @ [erase e]) st)
          ((if es = [] then [] else TComma # toks_elems es) @ TRBracket # ts)"
    using 8(1) [OF oe] by simp
  also have "\<dots> = foldl (step rd) (deliver (JArr (acc @ erase_list (e # es)) []) st) ts"
  proof (cases "es = []")
    case True
    then show ?thesis by simp
  next
    case False
    with 8(3,4) have "ordered_list es" "finite_numbers_list rd es" by simp_all
    from 8(2) [OF False this False, of "acc @ [erase e]" st ts] False show ?thesis by simp
  qed
  finally show ?case .
next
  case 9
  then show ?case by simp
next
  case (10 p ps)
  obtain k v where p: "p = (k, v)" by (cases p)
  from 10(3,4) have ov: "ordered v" "finite_numbers rd v" by (simp_all add: p)
  from 10(6) have "canonical ((pacc @ [(k, erase v)]) @ erase_props ps)" by (simp add: p)
  then have "canonical (pacc @ [(k, erase v)])" by (rule canonical_prefix)
  then have os: "obj_set k (erase v) pacc = pacc @ [(k, erase v)]" by (rule obj_set_append)
  have "foldl (step rd) (SKey pacc st) (toks_props (p # ps) @ TRBrace # ts)
      = foldl (step rd) (SValue (InObj pacc k # st))
          (toks v @ ((if ps = [] then [] else TComma # toks_props ps) @ TRBrace # ts))"
    by (simp add: p)
  also have "\<dots> = foldl (step rd) (SObjRest (pacc @ [(k, erase v)]) st)
          ((if ps = [] then [] else TComma # toks_props ps) @ TRBrace # ts)"
    using 10(1) [OF ov [unfolded p [symmetric, THEN arg_cong, of snd, simplified]]] os
    by (simp add: p)
  also have "\<dots> = foldl (step rd) (deliver (JObj (pacc @ erase_props (p # ps))) st) ts"
  proof (cases "ps = []")
    case True
    then show ?thesis by (simp add: p)
  next
    case False
    with 10(3,4) have o: "ordered_props ps" "finite_numbers_props rd ps" by simp_all
    from 10(6) have c: "canonical ((pacc @ [(k, erase v)]) @ erase_props ps)" by (simp add: p)
    from 10(2) [OF False o False c, of st ts] False show ?thesis by (simp add: p)
  qed
  finally show ?case .
qed

subsection \<open>Strings\<close>

lemma hexValue_hexDigit: "n < 16 \<Longrightarrow> hexValue (hexDigit n) = Some n"
proof (cases "n < 10")
  case True
  then have "hexDigit n = 0x30 + n" by (simp add: hexDigit_def)
  moreover have "0x30 \<le> 0x30 + n" "0x30 + n \<le> 0x39" using True by simp_all
  ultimately show ?thesis unfolding hexValue_def by simp
next
  case False
  assume "n < 16"
  with False have b: "0x61 \<le> 0x57 + n" "0x57 + n \<le> 0x66" "\<not> 0x57 + n \<le> 0x39" "\<not> 0x57 + n \<le> 0x46"
    by simp_all
  from False have "hexDigit n = 0x57 + n" by (simp add: hexDigit_def)
  then show ?thesis unfolding hexValue_def using b by simp
qed

lemma hex4:
  assumes "(c::nat) < 65536"
  shows "((c div 4096 mod 16 * 16 + c div 256 mod 16) * 16 + c div 16 mod 16) * 16 + c mod 16 = c"
proof -
  have d2: "c div 256 = c div 16 div 16" by (simp add: div_mult2_eq)
  have d3: "c div 4096 = c div 16 div 16 div 16" by (simp add: div_mult2_eq)
  have "c div 4096 < 16" using assms by (simp add: less_mult_imp_div_less)
  then have m3: "c div 4096 mod 16 = c div 16 div 16 div 16" using d3 by simp
  have e1: "c div 16 * 16 + c mod 16 = c" by simp
  have e2: "c div 16 div 16 * 16 + c div 16 mod 16 = c div 16" by simp
  have e3: "c div 16 div 16 div 16 * 16 + c div 16 div 16 mod 16 = c div 16 div 16" by simp
  show ?thesis unfolding m3 d2 e3 e2 e1 ..
qed

lemma lex_string_u:
  "hexValue h1 = Some a \<Longrightarrow> hexValue h2 = Some b \<Longrightarrow> hexValue h3 = Some c \<Longrightarrow> hexValue h4 = Some d \<Longrightarrow>
   lex_string (0x5C # 0x75 # h1 # h2 # h3 # h4 # s) = cons_fst (((a * 16 + b) * 16 + c) * 16 + d) (lex_string s)"
  by simp

lemma lex_string_unicodeEscape:
  assumes "c < 65536"
  shows "lex_string (unicodeEscape c @ s) = cons_fst c (lex_string s)"
proof -
  have d: "c div 4096 mod 16 < 16" "c div 256 mod 16 < 16" "c div 16 mod 16 < 16" "c mod 16 < 16"
    by simp_all
  have "lex_string (unicodeEscape c @ s) =
        cons_fst (((c div 4096 mod 16 * 16 + c div 256 mod 16) * 16 + c div 16 mod 16) * 16 + c mod 16)
          (lex_string s)"
    unfolding unicodeEscape_def append.simps
    by (rule lex_string_u [OF hexValue_hexDigit [OF d(1)] hexValue_hexDigit [OF d(2)]
          hexValue_hexDigit [OF d(3)] hexValue_hexDigit [OF d(4)]])
  then show ?thesis unfolding hex4 [OF assms] .
qed

lemma lex_string_raw:
  "\<not> c < 0x20 \<Longrightarrow> c \<noteq> 0x22 \<Longrightarrow> c \<noteq> 0x5C \<Longrightarrow> lex_string (c # s) = cons_fst c (lex_string s)"
  by simp

lemma lex_string_escape:
  "unescape e = Some x \<Longrightarrow> e \<noteq> 0x75 \<Longrightarrow> lex_string (0x5C # e # s) = cons_fst x (lex_string s)"
  by simp

lemma lex_string_quoteChars: "lex_string (quoteChars t @ 0x22 # rest) = Some (t, rest)"
proof (induction t rule: length_induct)
  case (1 t)
  show ?case
  proof (cases t)
    case Nil
    then show ?thesis by simp
  next
    case (Cons c cs)
    have IH: "\<And>ys. length ys < length t \<Longrightarrow> lex_string (quoteChars ys @ 0x22 # rest) = Some (ys, rest)"
      using 1 by blast
    have ih: "lex_string (quoteChars cs @ 0x22 # rest) = Some (cs, rest)"
      using IH [of cs] Cons by simp
    show ?thesis
    proof (cases "c = 0x08 \<or> c = 0x09 \<or> c = 0x0A \<or> c = 0x0C \<or> c = 0x0D \<or> c = 0x22 \<or> c = 0x5C")
      case True
      then show ?thesis
        unfolding Cons using ih by (elim disjE) (simp_all add: unescape_def cons_fst_def)
    next
      case False
      then have ne: "c \<noteq> 0x08" "c \<noteq> 0x09" "c \<noteq> 0x0A" "c \<noteq> 0x0C" "c \<noteq> 0x0D" "c \<noteq> 0x22" "c \<noteq> 0x5C"
        by simp_all
      show ?thesis
      proof (cases "c < 0x20")
        case True
        with ne have q: "quoteChars (c # cs) = unicodeEscape c @ quoteChars cs" by simp
        have "c < 65536" using True by simp
        from lex_string_unicodeEscape [OF this] ih show ?thesis
          unfolding Cons q by (simp add: cons_fst_def)
      next
        case False
        note ge = False
        show ?thesis
        proof (cases "isLeadingSurrogate c")
          case True
          then have c: "c < 65536" by (simp add: isLeadingSurrogate_def)
          show ?thesis
          proof (cases cs)
            case Nil
            with True ge ne have q: "quoteChars (c # cs) = unicodeEscape c" by simp
            show ?thesis
              unfolding Cons q using lex_string_unicodeEscape [OF c, of "0x22 # rest"] Nil
              by (simp add: cons_fst_def)
          next
            case (Cons d ds)
            show ?thesis
            proof (cases "isTrailingSurrogate d")
              case True
              with \<open>isLeadingSurrogate c\<close> ge ne Cons
              have q: "quoteChars (c # cs) = c # d # quoteChars ds" by simp
              from True have d: "\<not> d < 0x20" "d \<noteq> 0x22" "d \<noteq> 0x5C"
                by (auto simp: isTrailingSurrogate_def)
              have "lex_string (quoteChars ds @ 0x22 # rest) = Some (ds, rest)"
                using IH [of ds] \<open>t = c # cs\<close> Cons by simp
              then have "lex_string (c # d # quoteChars ds @ 0x22 # rest) = Some (c # d # ds, rest)"
                by (simp only: lex_string_raw [OF ge ne(6,7)] lex_string_raw [OF d] cons_fst_def
                      option.case prod.case)
              then show ?thesis
                unfolding \<open>t = c # cs\<close> q by (simp only: append_Cons Cons)
            next
              case False
              with \<open>isLeadingSurrogate c\<close> ge ne Cons
              have q: "quoteChars (c # cs) = unicodeEscape c @ quoteChars cs" by simp
              show ?thesis
                unfolding \<open>t = c # cs\<close> q using lex_string_unicodeEscape [OF c] ih
                by (simp add: cons_fst_def)
            qed
          qed
        next
          case False
          note nl = False
          show ?thesis
          proof (cases "isTrailingSurrogate c")
            case True
            then have c: "c < 65536" by (simp add: isTrailingSurrogate_def)
            from True nl ge ne have q: "quoteChars (c # cs) = unicodeEscape c @ quoteChars cs" by simp
            show ?thesis
              unfolding Cons q using lex_string_unicodeEscape [OF c] ih by (simp add: cons_fst_def)
          next
            case False
            with nl ge ne have q: "quoteChars (c # cs) = c # quoteChars cs" by simp
            have "lex_string (c # quoteChars cs @ 0x22 # rest) = Some (c # cs, rest)"
              by (simp only: lex_string_raw [OF ge ne(6,7)] ih cons_fst_def option.case prod.case)
            then show ?thesis
              unfolding Cons q by (simp only: append_Cons)
          qed
        qed
      qed
    qed
  qed
qed

subsection \<open>Numbers\<close>

lemma follows_value_not_digit: "follows_value (c # cs) \<Longrightarrow> \<not> isDigit c"
  by (auto simp: follows_value_def isDigit_def)

lemma digits_append:
  assumes "follows_value rest"
  shows "takeWhile isDigit (s @ rest) = takeWhile isDigit s \<and>
         dropWhile isDigit (s @ rest) = dropWhile isDigit s @ rest"
proof (induction s)
  case Nil
  show ?case using assms follows_value_not_digit by (cases rest) auto
next
  case (Cons c s)
  then show ?case by simp
qed

lemma lex_int_append:
  assumes "lex_int s = Some (i, r)" "follows_value rest"
  shows "lex_int (s @ rest) = Some (i, r @ rest)"
proof -
  from assms(1) obtain c s' where s: "s = c # s'" by (cases s) (auto simp: lex_int_def)
  show ?thesis
    using assms(1) digits_append [OF assms(2), of s]
    unfolding s lex_int_def by (auto split: if_splits)
qed

lemma lex_digits1_append:
  assumes "lex_digits1 pre s = Some (e, r)" "follows_value rest"
  shows "lex_digits1 pre (s @ rest) = Some (e, r @ rest)"
  using assms(1) digits_append [OF assms(2), of s]
  unfolding lex_digits1_def by (auto split: if_splits)

lemma lex_frac_append:
  assumes "lex_frac s = Some (f, r)" "follows_value rest"
  shows "lex_frac (s @ rest) = Some (f, r @ rest)"
proof (cases s)
  case Nil
  with assms show ?thesis
    by (cases rest) (auto simp: lex_frac_def follows_value_def)
next
  case (Cons c s')
  show ?thesis
    using assms(1) digits_append [OF assms(2), of s']
    unfolding Cons lex_frac_def by (auto split: if_splits)
qed

lemma lex_exp_append:
  assumes "lex_exp s = Some (e, r)" "follows_value rest"
  shows "lex_exp (s @ rest) = Some (e, r @ rest)"
proof (cases s)
  case Nil
  with assms show ?thesis
    by (cases rest) (auto simp: lex_exp_def follows_value_def)
next
  case (Cons c s')
  show ?thesis
  proof (cases "c = 0x65 \<or> c = 0x45")
    case False
    with assms(1) show ?thesis unfolding Cons lex_exp_def by auto
  next
    case True
    with assms(1) obtain g s'' where s': "s' = g # s''"
      unfolding Cons lex_exp_def by (cases s') auto
    show ?thesis
    proof (cases "g = 0x2B \<or> g = 0x2D")
      case True
      with assms(1) \<open>c = 0x65 \<or> c = 0x45\<close> have "lex_digits1 [c, g] s'' = Some (e, r)"
        unfolding Cons s' lex_exp_def by auto
      from lex_digits1_append [OF this assms(2)] True \<open>c = 0x65 \<or> c = 0x45\<close>
      show ?thesis unfolding Cons s' lex_exp_def by auto
    next
      case False
      with assms(1) \<open>c = 0x65 \<or> c = 0x45\<close> have "lex_digits1 [c] s' = Some (e, r)"
        unfolding Cons s' lex_exp_def by auto
      from lex_digits1_append [OF this assms(2)] False \<open>c = 0x65 \<or> c = 0x45\<close>
      show ?thesis unfolding Cons s' lex_exp_def by auto
    qed
  qed
qed

lemma lex_number_append:
  assumes "lex_number s = Some (l, r)" "follows_value rest"
  shows "lex_number (s @ rest) = Some (l, r @ rest)"
proof -
  from assms(1) obtain c s' where s: "s = c # s'"
    by (cases s) (auto simp: lex_number_def lex_int_def)
  define sg where "sg = (if c = 0x2D then [c] else [])"
  define s1 where "s1 = (if c = 0x2D then s' else s)"
  from assms(1) obtain i s2 f s3 e where
    i: "lex_int s1 = Some (i, s2)" and f: "lex_frac s2 = Some (f, s3)"
    and e: "lex_exp s3 = Some (e, r)" and l: "l = sg @ i @ f @ e"
    unfolding s lex_number_def sg_def s1_def
    by (auto split: if_splits option.splits)
  have s1r: "(if c = 0x2D then s' @ rest else s @ rest) = s1 @ rest" by (simp add: s1_def)
  show ?thesis
    unfolding s lex_number_def
    using lex_int_append [OF i assms(2)] lex_frac_append [OF f assms(2)] lex_exp_append [OF e assms(2)] l
    by (simp add: s1_def sg_def s split: if_splits)
qed

lemma isNumeral_first:
  assumes "isNumeral t"
  shows "\<exists>c cs. t = c # cs \<and> (c = 0x2D \<or> isDigit c)"
proof -
  from assms obtain c cs where t: "t = c # cs"
    unfolding isNumeral_def by (cases t) (auto simp: lex_number_def lex_int_def)
  from assms have "c = 0x2D \<or> isDigit c"
    unfolding isNumeral_def t lex_number_def lex_int_def isDigit_def
    by (auto split: if_splits option.splits list.splits)
  with t show ?thesis by blast
qed

subsection \<open>The tokens of the written text\<close>

lemma lex_indent: "lex (indent i @ s) = lex s"
  by (induction i) (simp_all add: indent_def isJsonWs_def)

lemma lex_newline: "lex (0x0A # s) = lex s"
  by (simp add: isJsonWs_def)

lemma lex_quote: "lex (quote k @ rest) = cons_tok (TString k) (lex rest)"
  by (simp add: quote_def isJsonWs_def lex_string_quoteChars)

lemma lex_numeral:
  assumes "isNumeral t" "follows_value rest"
  shows "lex (t @ rest) = cons_tok (TNumber t) (lex rest)"
proof -
  from isNumeral_first [OF assms(1)] obtain c cs where t: "t = c # cs" and c: "c = 0x2D \<or> isDigit c"
    by blast
  from assms(1) have "lex_number (t @ rest) = Some (t, rest)"
    unfolding isNumeral_def using lex_number_append [OF _ assms(2)] by fastforce
  then have n: "lex_number (c # cs @ rest) = Some (t, rest)" by (simp add: t)
  have "lex (c # cs @ rest) = cons_tok (TNumber t) (lex rest)"
    using c n by (auto simp: isJsonWs_def isDigit_def)
  then show ?thesis by (simp add: t)
qed

lemma not_numeral_words:
  "\<not> isNumeral (str ''Infinity'')" "\<not> isNumeral (str ''-Infinity'')" "\<not> isNumeral (str ''NaN'')"
  by (simp_all add: isNumeral_def lex_number_def lex_int_def str_def isDigit_def)

lemma ser_number: "isNumeral t \<Longrightarrow> ser i (JNum t) = t"
  using not_numeral_words by auto

lemma lex_ser:
  shows "finite_numbers rd v \<Longrightarrow> follows_value rest \<Longrightarrow>
           lex (ser i v @ rest) = map_option ((@) (toks v)) (lex rest)"
    and "finite_numbers_list rd es \<Longrightarrow> follows_value rest \<Longrightarrow>
           lex (ser_elems i es @ rest) = map_option ((@) (toks_elems es)) (lex rest)"
    and "finite_numbers_props rd ps \<Longrightarrow> follows_value rest \<Longrightarrow>
           lex (ser_props i ps @ rest) = map_option ((@) (toks_props ps)) (lex rest)"
proof (induction i v and i es and i ps arbitrary: rest and rest and rest
       rule: ser_ser_elems_ser_props.induct)
  case (1 i)
  show ?case by (simp add: str_def isJsonWs_def cons_tok_def split: option.splits)
next
  case (2 i b)
  show ?case by (simp add: str_def isJsonWs_def cons_tok_def split: option.splits)
next
  case (3 i t)
  then have n: "isNumeral t" by simp
  show ?case
    unfolding ser_number [OF n] using lex_numeral [OF n 3(2)]
    by (simp add: cons_tok_def split: option.splits)
next
  case (4 i t)
  show ?case using lex_quote [of t rest] by (simp add: cons_tok_def split: option.splits)
next
  case (5 i es ps)
  show ?case
  proof (cases "es = []")
    case True
    then show ?thesis by (simp add: str_def isJsonWs_def cons_tok_def split: option.splits)
  next
    case False
    have fv: "follows_value (0x0A # indent i @ 0x5D # rest)" by (simp add: follows_value_def)
    from 5(2) have fn: "finite_numbers_list rd es" by simp
    have "lex (ser i (JArr es ps) @ rest) =
          cons_tok TLBracket (lex (ser_elems (i + 2) es @ (0x0A # indent i @ 0x5D # rest)))"
      using False by (simp add: isJsonWs_def)
    also have "\<dots> = cons_tok TLBracket (map_option ((@) (toks_elems es)) (lex (0x0A # indent i @ 0x5D # rest)))"
      using 5(1) [OF False fn fv] by simp
    also have "lex (0x0A # indent i @ 0x5D # rest) = cons_tok TRBracket (lex rest)"
      by (simp add: lex_newline lex_indent isJsonWs_def)
    finally show ?thesis by (simp add: cons_tok_def split: option.splits)
  qed
next
  case (6 i ps)
  show ?case
  proof (cases "ps = []")
    case True
    then show ?thesis by (simp add: str_def isJsonWs_def cons_tok_def split: option.splits)
  next
    case False
    have fv: "follows_value (0x0A # indent i @ 0x7D # rest)" by (simp add: follows_value_def)
    from 6(2) have fn: "finite_numbers_props rd ps" by simp
    have "lex (ser i (JObj ps) @ rest) =
          cons_tok TLBrace (lex (ser_props (i + 2) ps @ (0x0A # indent i @ 0x7D # rest)))"
      using False by (simp add: isJsonWs_def)
    also have "\<dots> = cons_tok TLBrace (map_option ((@) (toks_props ps)) (lex (0x0A # indent i @ 0x7D # rest)))"
      using 6(1) [OF False fn fv] by simp
    also have "lex (0x0A # indent i @ 0x7D # rest) = cons_tok TRBrace (lex rest)"
      by (simp add: lex_newline lex_indent isJsonWs_def)
    finally show ?thesis by (simp add: cons_tok_def split: option.splits)
  qed
next
  case (7 i)
  show ?case by (simp add: option.map_ident)
next
  case (8 i e es)
  from 8(3) have fe: "finite_numbers rd e" and fes: "finite_numbers_list rd es" by simp_all
  show ?case
  proof (cases "es = []")
    case True
    have "lex (ser_elems i (e # es) @ rest) = lex (ser i e @ rest)"
      using True by (simp add: lex_indent)
    then show ?thesis using 8(1) [OF fe 8(4)] True by simp
  next
    case False
    have fv: "follows_value (0x2C # 0x0A # ser_elems i es @ rest)" by (simp add: follows_value_def)
    have "lex (ser_elems i (e # es) @ rest) = lex (ser i e @ (0x2C # 0x0A # ser_elems i es @ rest))"
      using False by (simp add: lex_indent)
    also have "\<dots> = map_option ((@) (toks e)) (lex (0x2C # 0x0A # ser_elems i es @ rest))"
      using 8(1) [OF fe fv] .
    also have "lex (0x2C # 0x0A # ser_elems i es @ rest) = cons_tok TComma (lex (ser_elems i es @ rest))"
      by (simp add: isJsonWs_def)
    also have "lex (ser_elems i es @ rest) = map_option ((@) (toks_elems es)) (lex rest)"
      using 8(2) [OF False fes 8(4)] .
    finally show ?thesis using False by (simp add: cons_tok_def split: option.splits)
  qed
next
  case (9 i)
  show ?case by (simp add: option.map_ident)
next
  case (10 i p ps)
  from 10(3) have fe: "finite_numbers rd (snd p)" and fes: "finite_numbers_props rd ps" by simp_all
  have k: "\<And>s. lex (ser_props i (p # ps) @ rest) =
      cons_tok (TString (fst p)) (cons_tok TColon
        (lex (ser i (snd p) @ ((if ps = [] then [] else 0x2C # 0x0A # ser_props i ps) @ rest))))"
    using lex_quote [of "fst p"] by (simp add: lex_indent isJsonWs_def)
  show ?case
  proof (cases "ps = []")
    case True
    show ?thesis
      unfolding k using 10(1) [OF fe 10(4)] True by (simp add: cons_tok_def split: option.splits)
  next
    case False
    have fv: "follows_value (0x2C # 0x0A # ser_props i ps @ rest)" by (simp add: follows_value_def)
    have "lex (ser i (snd p) @ (0x2C # 0x0A # ser_props i ps @ rest))
        = map_option ((@) (toks (snd p))) (lex (0x2C # 0x0A # ser_props i ps @ rest))"
      using 10(1) [OF fe fv] .
    also have "lex (0x2C # 0x0A # ser_props i ps @ rest) = cons_tok TComma (lex (ser_props i ps @ rest))"
      by (simp add: isJsonWs_def)
    also have "lex (ser_props i ps @ rest) = map_option ((@) (toks_props ps)) (lex rest)"
      using 10(2) [OF False fes 10(4)] .
    finally show ?thesis unfolding k using False by (simp add: cons_tok_def split: option.splits)
  qed
qed

subsection \<open>Reading back what was written\<close>

lemma JSON_parse_stringify:
  assumes "ordered v" "finite_numbers rd v"
  shows "JSON_parse rd (JSON_stringify v) = Inr (erase v)"
proof -
  have fv: "follows_value []" by (simp add: follows_value_def)
  have "lex (ser 0 v @ []) = map_option ((@) (toks v)) (lex [])"
    using lex_ser(1) [OF assms(2) fv] .
  then have l: "lex (ser 0 v) = Some (toks v)" by simp
  have "foldl (step rd) (SValue []) (toks v @ []) = foldl (step rd) (deliver (erase v) []) []"
    using parse_toks(1) [OF assms] .
  then have "foldl (step rd) (SValue []) (toks v) = SDone (erase v)" by simp
  with l show ?thesis by (simp add: JSON_parse_def JSON_stringify_def)
qed

subsection \<open>What the parser builds\<close>

lemma ordered_list_all: "ordered_list es = list_all ordered es"
  by (induction es) auto

lemma ordered_props_all: "ordered_props ps = list_all (\<lambda>p. ordered (snd p)) ps"
  by (induction ps) auto

lemma erase_list_id: "list_all plain es \<Longrightarrow> erase_list es = es"
  by (induction es) (auto simp: plain_def)

lemma erase_props_id: "list_all (\<lambda>p. plain (snd p)) ps \<Longrightarrow> erase_props ps = ps"
  by (induction ps) (auto simp: plain_def)

lemma erase_list_plain: "erase_list es = es \<Longrightarrow> list_all plain es"
  by (induction es) (auto simp: plain_def)

lemma erase_props_plain: "erase_props ps = ps \<Longrightarrow> list_all (\<lambda>p. plain (snd p)) ps"
proof (induction ps)
  case Nil
  show ?case by simp
next
  case (Cons p ps)
  then show ?case by (cases p) (auto simp: plain_def)
qed

lemma plain_list: "list_all plain es \<longleftrightarrow> erase_list es = es"
  using erase_list_id erase_list_plain by blast

lemma plain_props: "list_all (\<lambda>p. plain (snd p)) ps \<longleftrightarrow> erase_props ps = ps"
  using erase_props_id erase_props_plain by blast

lemma tidy_JArr: "tidy (JArr es ps) \<longleftrightarrow> list_all tidy es \<and> ps = []"
proof -
  have "list_all tidy es \<longleftrightarrow> list_all ordered es \<and> list_all plain es"
    by (induction es) (auto simp: tidy_def)
  moreover have "tidy (JArr es ps) \<longleftrightarrow> list_all ordered es \<and> erase_list es = es \<and> ps = []"
    by (auto simp: tidy_def plain_def [of "JArr es ps"] ordered_list_all)
  ultimately show ?thesis by (simp add: plain_list)
qed

lemma tidy_JObj: "tidy (JObj ps) \<longleftrightarrow> canonical ps \<and> list_all (\<lambda>p. tidy (snd p)) ps"
proof -
  have "list_all (\<lambda>p. tidy (snd p)) ps \<longleftrightarrow>
          list_all (\<lambda>p. ordered (snd p)) ps \<and> list_all (\<lambda>p. plain (snd p)) ps"
    by (induction ps) (auto simp: tidy_def)
  moreover have "tidy (JObj ps) \<longleftrightarrow> canonical ps \<and> list_all (\<lambda>p. ordered (snd p)) ps \<and> erase_props ps = ps"
    by (auto simp: tidy_def plain_def [of "JObj ps"] ordered_props_all)
  ultimately show ?thesis by (simp add: plain_props)
qed

lemma tidy_simple: "tidy JNull" "tidy (JBool b)" "tidy (JNum t)" "tidy (JStr t)"
  by (simp_all add: tidy_def plain_def)

lemma set_replace_prop: "p \<in> set (replace_prop k v ps) \<Longrightarrow> p = (k, v) \<or> p \<in> set ps"
  by (induction ps) (auto split: if_splits)

lemma set_insert_index_props: "p \<in> set (insert_index k v ps) \<Longrightarrow> p = (k, v) \<or> p \<in> set ps"
  by (induction ps) (auto split: if_splits)

lemma set_obj_set: "p \<in> set (obj_set k v ps) \<Longrightarrow> p = (k, v) \<or> p \<in> set ps"
  unfolding obj_set_def using set_replace_prop set_insert_index_props
  by (auto split: if_splits)

lemma values_obj_set:
  assumes "list_all (\<lambda>p. P (snd p)) ps" "P v"
  shows "list_all (\<lambda>p. P (snd p)) (obj_set k v ps)"
  unfolding list_all_iff
proof
  fix p assume "p \<in> set (obj_set k v ps)"
  from set_obj_set [OF this] assms show "P (snd p)" by (auto simp: list_all_iff)
qed

lemma values_replace_prop:
  assumes "list_all (\<lambda>p. P (snd p)) ps" "P v"
  shows "list_all (\<lambda>p. P (snd p)) (replace_prop k v ps)"
  unfolding list_all_iff
proof
  fix p assume "p \<in> set (replace_prop k v ps)"
  from set_replace_prop [OF this] assms show "P (snd p)" by (auto simp: list_all_iff)
qed

lemma deliver_ok: "tidy v \<Longrightarrow> list_all frame_ok st \<Longrightarrow> state_ok (deliver v st)"
proof (cases st)
  case Nil
  assume "tidy v"
  with Nil show ?thesis by simp
next
  case (Cons f fs)
  assume v: "tidy v" and st: "list_all frame_ok st"
  show ?thesis
  proof (cases f)
    case (InArr es)
    with Cons v st show ?thesis by simp
  next
    case (InObj ps k)
    with Cons v st show ?thesis
      by (simp add: canonical_obj_set values_obj_set)
  qed
qed

lemma start_value_ok:
  "list_all frame_ok st \<Longrightarrow> state_ok (start_value rd st tok)"
  by (cases tok) (simp_all add: deliver_ok tidy_simple)

lemma step_ok: "state_ok s \<Longrightarrow> state_ok (step rd s tok)"
proof (cases s)
  case (SValue st)
  assume "state_ok s"
  with SValue show ?thesis by (simp add: start_value_ok)
next
  case (SFirstElem st)
  assume "state_ok s"
  with SFirstElem show ?thesis by (simp add: start_value_ok deliver_ok tidy_JArr)
next
  case (SArrRest es st)
  assume "state_ok s"
  with SArrRest show ?thesis by (simp add: deliver_ok tidy_JArr)
next
  case (SFirstKey st)
  assume "state_ok s"
  with SFirstKey show ?thesis
    by (cases tok) (simp_all add: deliver_ok tidy_JObj canonical_def)
next
  case (SKey ps st)
  assume "state_ok s"
  with SKey show ?thesis by (cases tok) simp_all
next
  case (SColon ps k st)
  assume "state_ok s"
  with SColon show ?thesis by simp
next
  case (SObjRest ps st)
  assume "state_ok s"
  with SObjRest show ?thesis by (simp add: deliver_ok tidy_JObj)
next
  case (SDone v)
  then show ?thesis by simp
next
  case SError
  then show ?thesis by simp
qed

lemma foldl_step_ok: "state_ok s \<Longrightarrow> state_ok (foldl (step rd) s ts)"
  by (induction ts arbitrary: s) (auto simp: step_ok)

lemma JSON_parse_tidy: "JSON_parse rd t = Inr d \<Longrightarrow> tidy d"
proof -
  assume p: "JSON_parse rd t = Inr d"
  then obtain ts where l: "lex t = Some ts" and f: "foldl (step rd) (SValue []) ts = SDone d"
    unfolding JSON_parse_def by (auto split: option.splits pstate.splits)
  have "state_ok (foldl (step rd) (SValue []) ts)" by (rule foldl_step_ok) simp
  with f show ?thesis by simp
qed

section \<open>The patch of a document that was read\<close>

text \<open>
  The patch of a document that \<open>JSON.parse\<close> returned gives a document that, written and
  read back, is patched to itself.
\<close>

lemma obj_set_same: "map_of ps k = Some v \<Longrightarrow> obj_set k v ps = ps"
  by (simp add: obj_set_def replace_prop_same)

lemma with_alias_idem: "with_alias (with_alias c) = with_alias c"
proof (cases c)
  case (JObj cps)
  let ?x = "obj_set pa pathAlias (obj_set bu (JStr (str ''.'')) cps)"
  have b: "map_of ?x bu = Some (JStr (str ''.''))" using keys_neq by (simp add: map_of_obj_set)
  have p: "map_of ?x pa = Some pathAlias" by (simp add: map_of_obj_set)
  show ?thesis unfolding JObj by (simp add: obj_set_same [OF b] obj_set_same [OF p])
next
  case (JArr es cps)
  let ?x = "obj_set pa pathAlias (obj_set bu (JStr (str ''.'')) cps)"
  have b: "map_of ?x bu = Some (JStr (str ''.''))" using keys_neq by (simp add: map_of_obj_set)
  have p: "map_of ?x pa = Some pathAlias" by (simp add: map_of_obj_set)
  show ?thesis unfolding JArr by (simp add: obj_set_same [OF b] obj_set_same [OF p])
qed simp_all

lemma finite_numbers_props_all:
  "finite_numbers_props rd ps = list_all (\<lambda>p. finite_numbers rd (snd p)) ps"
  by (induction ps) auto

lemma pathAlias_good: "ordered pathAlias" "plain pathAlias" "finite_numbers rd pathAlias"
  by (simp_all add: pathAlias_def canonical_def plain_def)

lemma dot_good: "ordered (JStr t)" "plain (JStr t)" "finite_numbers rd (JStr t)"
  by (simp_all add: plain_def)

lemma alias_props:
  assumes "list_all (\<lambda>p. P (snd p)) cps" "P pathAlias" "P (JStr (str ''.''))"
  shows "list_all (\<lambda>p. P (snd p)) (obj_set pa pathAlias (obj_set bu (JStr (str ''.'')) cps))"
  by (intro values_obj_set assms)

lemma ordered_with_alias: "ordered c \<Longrightarrow> ordered (with_alias c)"
  by (cases c)
     (auto simp: ordered_props_all canonical_obj_set intro!: alias_props pathAlias_good dot_good)

lemma finite_with_alias: "finite_numbers rd c \<Longrightarrow> finite_numbers rd (with_alias c)"
  by (cases c)
     (auto simp: finite_numbers_props_all intro!: alias_props pathAlias_good dot_good)

lemma plain_with_alias_obj: "plain (JObj cps) \<Longrightarrow> plain (with_alias (JObj cps))"
proof -
  assume "plain (JObj cps)"
  then have "erase_props cps = cps" by (simp add: plain_def)
  then have "list_all (\<lambda>p. plain (snd p)) cps" by (rule erase_props_plain)
  then have "list_all (\<lambda>p. plain (snd p)) (obj_set pa pathAlias (obj_set bu (JStr (str ''.'')) cps))"
    by (intro alias_props pathAlias_good dot_good)
  then have "erase_props (obj_set pa pathAlias (obj_set bu (JStr (str ''.'')) cps))
      = obj_set pa pathAlias (obj_set bu (JStr (str ''.'')) cps)"
    by (rule erase_props_id)
  then show ?thesis by (simp add: plain_def)
qed

lemma erase_props_replace:
  "erase_props (replace_prop k v ps) = replace_prop k (erase v) (erase_props ps)"
  by (induction ps) auto

lemma tidy_value: "tidy (JObj ps) \<Longrightarrow> map_of ps k = Some c \<Longrightarrow> tidy c"
proof -
  assume t: "tidy (JObj ps)" and m: "map_of ps k = Some c"
  from m have "(k, c) \<in> set ps" by (rule map_of_SomeD)
  with t show ?thesis by (auto simp: tidy_JObj list_all_iff)
qed

lemma inject_tidy_obj:
  assumes t: "tidy (JObj ps)" and f: "finite_numbers rd (JObj ps)"
    and i: "injectPathAlias (JObj ps) = Inr d'"
  shows "ordered d' \<and> finite_numbers rd d' \<and> injectPathAlias (erase d') = Inr d'"
proof -
  from t have cn: "canonical ps" and tv: "list_all (\<lambda>p. tidy (snd p)) ps" by (simp_all add: tidy_JObj)
  from tv have ov: "list_all (\<lambda>p. ordered (snd p)) ps" and pv: "list_all (\<lambda>p. plain (snd p)) ps"
    by (auto simp: tidy_def list_all_iff)
  from f have fv: "list_all (\<lambda>p. finite_numbers rd (snd p)) ps" by (simp add: finite_numbers_props_all)
  from pv have ep: "erase_props ps = ps" by (rule erase_props_id)
  show ?thesis
  proof (cases "truthy (map_of ps co)")
    case True
    then obtain c where c: "map_of ps co = Some c" by (cases "map_of ps co") auto
    from tidy_value [OF t c] have tc: "ordered c" "plain c" by (simp_all add: tidy_def)
    from c have "(co, c) \<in> set ps" by (rule map_of_SomeD)
    with fv have fc: "finite_numbers rd c" by (auto simp: list_all_iff)
    let ?w = "with_alias c"
    from i True c have d': "d' = JObj (replace_prop co ?w ps)"
      using injectPathAlias_obj_form [of ps] by simp
    have o: "ordered d'"
      unfolding d' using cn ov ordered_with_alias [OF tc(1)]
      by (simp add: canonical_replace_prop ordered_props_all values_replace_prop)
    have fn: "finite_numbers rd d'"
      unfolding d' using fv finite_with_alias [OF fc]
      by (simp add: finite_numbers_props_all values_replace_prop)
    have e: "erase (JObj (replace_prop co ?w ps)) = JObj (replace_prop co (erase ?w) ps)"
      by (simp add: erase_props_replace ep)
    have "injectPathAlias (erase d') = Inr d'"
    proof (cases c)
      case (JObj cps)
      from tc(2) JObj have "plain ?w" using plain_with_alias_obj by simp
      then have ew: "erase ?w = ?w" by (simp add: plain_def)
      have m: "map_of (replace_prop co ?w ps) co = Some ?w"
        using c by (simp add: map_of_replace_prop_any)
      have tr: "truthy (Some ?w)" using JObj by simp
      have "injectPathAlias (JObj (replace_prop co ?w ps))
          = Inr (JObj (replace_prop co (with_alias ?w) (replace_prop co ?w ps)))"
        using injectPathAlias_obj_form [of "replace_prop co ?w ps"] m tr by simp
      also have "\<dots> = Inr (JObj (replace_prop co ?w ps))"
        by (simp only: with_alias_idem replace_prop_twice)
      finally show ?thesis unfolding d' e ew .
    next
      case (JArr ces cps)
      from tc(2) JArr have "erase ?w = c" by (simp add: plain_def)
      then have "erase d' = JObj ps" unfolding d' e using c by (simp add: replace_prop_same)
      with i show ?thesis by simp
    next
      case JNull
      with True c show ?thesis by simp
    next
      case (JBool b)
      then have "?w = c" by simp
      then have "d' = JObj ps" unfolding d' using c by (simp add: replace_prop_same)
      then have "erase d' = JObj ps" using ep by simp
      with i show ?thesis by simp
    next
      case (JNum n)
      then have "?w = c" by simp
      then have "d' = JObj ps" unfolding d' using c by (simp add: replace_prop_same)
      then have "erase d' = JObj ps" using ep by simp
      with i show ?thesis by simp
    next
      case (JStr n)
      then have "?w = c" by simp
      then have "d' = JObj ps" unfolding d' using c by (simp add: replace_prop_same)
      then have "erase d' = JObj ps" using ep by simp
      with i show ?thesis by simp
    qed
    with o fn show ?thesis by blast
  next
    case False
    let ?a = "with_alias (JObj [])"
    let ?ps1 = "obj_set co (JObj []) ps"
    let ?ps' = "replace_prop co ?a ?ps1"
    from i False have d': "d' = JObj ?ps'"
      using injectPathAlias_obj_form [of ps] by simp
    have ga: "ordered ?a" "finite_numbers rd ?a" "plain ?a"
      using ordered_with_alias [of "JObj []"] finite_with_alias [of rd "JObj []"]
            plain_with_alias_obj [of "[]"]
      by (simp_all add: canonical_def plain_def)
    have ge: "ordered (JObj [])" "finite_numbers rd (JObj [])" "plain (JObj [])"
      by (simp_all add: canonical_def plain_def)
    have o: "ordered d'"
      unfolding d' using cn ov ga(1) ge(1)
      by (simp add: canonical_replace_prop canonical_obj_set ordered_props_all
            values_replace_prop values_obj_set del: with_alias.simps)
    have fn: "finite_numbers rd d'"
      unfolding d' using fv ga(2) ge(2)
      by (simp add: finite_numbers_props_all values_replace_prop values_obj_set del: with_alias.simps)
    have "list_all (\<lambda>p. plain (snd p)) ?ps'"
      using pv ga(3) ge(3) by (intro values_replace_prop values_obj_set)
    then have e: "erase (JObj ?ps') = JObj ?ps'" by (simp add: erase_props_id del: with_alias.simps)
    have m: "map_of ?ps' co = Some ?a"
      by (simp add: map_of_replace_prop_any map_of_obj_set del: with_alias.simps)
    have tr: "truthy (Some ?a)" by simp
    have "injectPathAlias (JObj ?ps') = Inr (JObj (replace_prop co (with_alias ?a) ?ps'))"
      using injectPathAlias_obj_form [of ?ps'] m tr by (simp del: with_alias.simps)
    also have "\<dots> = Inr (JObj ?ps')"
      by (simp only: with_alias_idem replace_prop_twice)
    finally have "injectPathAlias (erase d') = Inr d'" unfolding d' e .
    with o fn show ?thesis by blast
  qed
qed

lemma inject_array:
  "injectPathAlias (JArr es []) = Inr (JArr es [(co, with_alias (JObj []))])"
  using keys_neq
  by (simp add: injectPathAlias_def ensureCompilerOptions_def set_prop2_def obj_set_def)

lemma inject_tidy:
  assumes t: "tidy d" and f: "finite_numbers rd d" and i: "injectPathAlias d = Inr d'"
  shows "ordered d' \<and> finite_numbers rd d' \<and> injectPathAlias (erase d') = Inr d'"
proof (cases d)
  case (JObj ps)
  with inject_tidy_obj t f i show ?thesis by blast
next
  case (JArr es ps)
  with t have ps: "ps = []" and te: "list_all tidy es" by (simp_all add: tidy_JArr)
  from te have "list_all plain es" "list_all ordered es" by (auto simp: tidy_def list_all_iff)
  then have ee: "erase_list es = es" and oe: "ordered_list es"
    by (simp_all add: erase_list_id ordered_list_all)
  from i have d': "d' = JArr es [(co, with_alias (JObj []))]"
    unfolding JArr ps inject_array by simp
  have "erase d' = JArr es []" unfolding d' using ee by simp
  then have "injectPathAlias (erase d') = Inr d'" unfolding d' by (simp only: inject_array)
  moreover have "ordered d'" unfolding d' using oe by simp
  moreover have "finite_numbers rd d'" unfolding d' using f JArr by simp
  ultimately show ?thesis by blast
next
  case JNull
  with i show ?thesis by (simp add: injectPathAlias_def ensureCompilerOptions_def)
next
  case (JBool b)
  with i show ?thesis by (simp add: injectPathAlias_def ensureCompilerOptions_def set_prop2_def)
next
  case (JNum n)
  with i show ?thesis by (simp add: injectPathAlias_def ensureCompilerOptions_def set_prop2_def)
next
  case (JStr n)
  with i show ?thesis by (simp add: injectPathAlias_def ensureCompilerOptions_def set_prop2_def)
qed

section \<open>Evaluation\<close>

lemmas eval_strip =
  str_def re_exec_def replace_all_def stripComments_def stripTrailingCommas_js_def
  stripTrailingCommas_sh_def re_block_def re_line_def re_comma_js_def re_comma_sh_def
  isLineTerminator_def isWhiteSpace_def

lemmas eval_inject =
  injectPathAlias_def ensureCompilerOptions_def set_prop2_def obj_set_def pathAlias_def
  isArrayIndex_def isDigit_def numeral_less_def str_def

lemmas eval_json = JSON_parse_def JSON_stringify_def patch_text_def patch_js_def patch_sh_def
  isJsonWs_def hexValue_def unescape_def cons_fst_def cons_tok_def lex_number_def lex_int_def lex_frac_def lex_exp_def lex_digits1_def
  quote_def indent_def hexDigit_def unicodeEscape_def isLeadingSurrogate_def isTrailingSurrogate_def num_plain_def

lemmas eval_setup = disk_env_def no_templates_def disk_read_def before_patch_def after_patch_def patch_step_def
  printStatus_def printSuccess_def printError_def colored_def emit_def fs_call_def try_exec_def
  commandExists_def copyToClipboard_def next_steps_def try_block_def setupReactProject_def
  setup_sh_start_def print_status_def print_error_def sh_print_def tsConfig_def viteConfig_def

section \<open>Trailing commas\<close>

text \<open>
  C4. The claim: stripTrailingCommas removes every comma that is followed by optional
  whitespace (newlines included) and a closing brace or bracket. In setup-react.js the
  pattern reads \<^verbatim>\<open>s*\<close> where the shell script reads \<^verbatim>\<open>\s*\<close>, so a comma followed
  by a newline and a closing brace stays in the text; the shell script's pattern removes it.
\<close>

theorem stripTrailingCommas_js_keeps_comma_before_newline:
  \<open>stripTrailingCommas_js (str ''{"a": 1,\<newline>}'') = str ''{"a": 1,\<newline>}'' \<and>
   stripTrailingCommas_sh (str ''{"a": 1,\<newline>}'') = str ''{"a": 1\<newline>}''\<close>
  by (simp add: eval_strip)

section \<open>Comments\<close>

text \<open>
  C6. stripComments removes every block comment (from \<^verbatim>\<open>/*\<close> to the first \<^verbatim>\<open>*/\<close>, across
  newlines) and every line comment (from \<^verbatim>\<open>//\<close> to the end of the line), and keeps the
  newlines that are not inside a removed comment. Stated on the patterns of the source:
  the two replacements compute what the scanners written from the specification's words
  compute; the pieces of the scan for block comments make up the input; every piece that
  the scan removes is a block comment; and the line terminators of the result are those
  of the pieces that the scan keeps, in the same order (the removal of line comments
  takes no line terminator away).
\<close>

theorem stripComments_removes_comments_only:
  "stripComments t = strip_line_spec (strip_block_spec t) \<and>
   concat (map seg_src (re_scan re_block t)) = t \<and>
   (\<forall>c caps. Match c caps \<in> set (re_scan re_block t) \<longrightarrow> is_block_comment c) \<and>
   filter isLineTerminator (stripComments t) =
     filter isLineTerminator (concat (map (seg_out []) (re_scan re_block t)))"
proof -
  have "filter isLineTerminator (stripComments t) = filter isLineTerminator (strip_block_spec t)"
    by (simp only: stripComments_refines strip_line_spec_terminators)
  also have "strip_block_spec t = concat (map (seg_out []) (re_scan re_block t))"
    by (simp only: replace_block_spec [symmetric] replace_all_def)
  finally show ?thesis
    using stripComments_refines re_scan_src re_scan_block_comments by blast
qed

theorem stripComments_removes_comments_only_witness:
  \<open>Match (str ''/*x\<newline>y*/'') [] \<in> set (re_scan re_block (str ''a/*x\<newline>y*/b//c\<newline>d'')) \<and>
   is_block_comment (str ''/*x\<newline>y*/'') \<and>
   stripComments (str ''a/*x\<newline>y*/b//c\<newline>d'') = str ''ab\<newline>d''\<close>
proof -
  have h: \<open>Match (str ''/*x\<newline>y*/'') [] \<in> set (re_scan re_block (str ''a/*x\<newline>y*/b//c\<newline>d''))\<close>
    by (simp add: eval_strip)
  have e: \<open>strip_line_spec (strip_block_spec (str ''a/*x\<newline>y*/b//c\<newline>d'')) = str ''ab\<newline>d''\<close>
    by (simp add: eval_strip)
  show ?thesis
    using h e stripComments_removes_comments_only [of \<open>str ''a/*x\<newline>y*/b//c\<newline>d''\<close>]
    by (simp only:)
qed

section \<open>The path alias is set\<close>

text \<open>
  C2. The claim: for every input document the patched document has
  \<open>compilerOptions.baseUrl\<close> equal to \<open>"."\<close> and \<open>compilerOptions.paths\<close> equal to exactly
  \<open>{"@/*": ["./src/*"]}\<close>. The guard of line 149 tests truthiness, so a \<open>compilerOptions\<close>
  that is a non-zero number, a non-empty string or \<open>true\<close> is kept, and the two
  assignments to its properties are dropped.
\<close>

theorem injectPathAlias_number_counterexample:
  \<open>injectPathAlias (JObj [(str ''compilerOptions'', JNum (str ''5''))])
     = Inr (JObj [(str ''compilerOptions'', JNum (str ''5''))]) \<and>
   get_path (JObj [(str ''compilerOptions'', JNum (str ''5''))])
     [str ''compilerOptions'', str ''baseUrl''] = None\<close>
  by (simp add: eval_inject)

text \<open>
  C2, amended, in three parts. When \<open>compilerOptions\<close> is absent, falsy or an object that
  is not an array, the patched document has the two entries with the two values. When it
  is a non-zero number, a non-empty string or \<open>true\<close>, the patch leaves the whole document
  as it is. When it is an array, the two are set as named properties of the array, in
  memory only: the text that line 152 writes is the text of the input document.
\<close>

theorem injectPathAlias_sets_alias:
  "(\<not> truthy (map_of ps (str ''compilerOptions'')) \<or>
      map_of ps (str ''compilerOptions'') = Some (JObj cps) \<longrightarrow>
      (\<exists>D'. injectPathAlias (JObj ps) = Inr D' \<and>
         get_path D' [str ''compilerOptions'', str ''baseUrl''] = Some (JStr (str ''.'')) \<and>
         get_path D' [str ''compilerOptions'', str ''paths''] = Some pathAlias)) \<and>
   (map_of ps (str ''compilerOptions'') = Some c \<and> truthy (Some c) \<and> \<not> isObject c \<longrightarrow>
      injectPathAlias (JObj ps) = Inr (JObj ps)) \<and>
   (map_of ps (str ''compilerOptions'') = Some (JArr es aps) \<longrightarrow>
      (\<exists>D'. injectPathAlias (JObj ps) = Inr D' \<and>
         get_path D' [str ''compilerOptions'', str ''baseUrl''] = Some (JStr (str ''.'')) \<and>
         get_path D' [str ''compilerOptions'', str ''paths''] = Some pathAlias \<and>
         JSON_stringify D' = JSON_stringify (JObj ps)))"
proof (intro conjI impI)
  assume a: "\<not> truthy (map_of ps co) \<or> map_of ps co = Some (JObj cps)"
  from map_of_patched_co [of ps] obtain ps' where
    i: "injectPathAlias (JObj ps) = Inr (JObj ps')" and
    m: "map_of ps' co = Some (with_alias (if truthy (map_of ps co) then the (map_of ps co) else JObj []))"
    by blast
  from a have "\<exists>xs. (if truthy (map_of ps co) then the (map_of ps co) else JObj []) = JObj xs"
    by (cases "truthy (map_of ps co)") auto
  then obtain xs where xs: "(if truthy (map_of ps co) then the (map_of ps co) else JObj []) = JObj xs"
    by blast
  obtain ys where ys: "with_alias (JObj xs) = JObj ys" by simp
  from with_alias_object [OF ys] m xs ys
  have "get_path (JObj ps') [co, bu] = Some (JStr (str ''.''))"
       "get_path (JObj ps') [co, pa] = Some pathAlias" by simp_all
  with i show "\<exists>D'. injectPathAlias (JObj ps) = Inr D' \<and>
         get_path D' [co, bu] = Some (JStr (str ''.'')) \<and> get_path D' [co, pa] = Some pathAlias"
    by blast
next
  assume a: "map_of ps co = Some c \<and> truthy (Some c) \<and> \<not> isObject c"
  then have "with_alias c = c" by (simp add: with_alias_primitive)
  with a show "injectPathAlias (JObj ps) = Inr (JObj ps)"
    using injectPathAlias_obj_form [of ps] by (simp add: replace_prop_same)
next
  assume a: "map_of ps co = Some (JArr es aps)"
  let ?w = "JArr es (obj_set pa pathAlias (obj_set bu (JStr (str ''.'')) aps))"
  have i: "injectPathAlias (JObj ps) = Inr (JObj (replace_prop co ?w ps))"
    using a injectPathAlias_obj_form [of ps] by simp
  have m: "map_of (replace_prop co ?w ps) co = Some ?w"
    using a by (simp add: map_of_replace_prop_any)
  have g: "get_path (JObj (replace_prop co ?w ps)) [co, bu] = Some (JStr (str ''.''))"
          "get_path (JObj (replace_prop co ?w ps)) [co, pa] = Some pathAlias"
    using m keys_neq by (simp_all add: map_of_obj_set)
  have s: "\<And>j. ser j ?w = ser j (JArr es aps)" by simp
  have "JSON_stringify (JObj (replace_prop co ?w ps)) = JSON_stringify (JObj ps)"
    by (simp add: JSON_stringify_def replace_prop_Nil ser_props_replace [OF a s])
  with i g show "\<exists>D'. injectPathAlias (JObj ps) = Inr D' \<and>
         get_path D' [co, bu] = Some (JStr (str ''.'')) \<and> get_path D' [co, pa] = Some pathAlias \<and>
         JSON_stringify D' = JSON_stringify (JObj ps)"
    by blast
qed

theorem injectPathAlias_sets_alias_witness:
  \<open>map_of [(str ''compilerOptions'', JObj [(str ''paths'', JObj [(str ''~/*'', JArr [JStr (str ''./lib/*'')] [])])])]
        (str ''compilerOptions'') = Some (JObj [(str ''paths'', JObj [(str ''~/*'', JArr [JStr (str ''./lib/*'')] [])])]) \<and>
   (\<exists>D'. injectPathAlias (JObj [(str ''compilerOptions'', JObj [(str ''paths'', JObj [(str ''~/*'', JArr [JStr (str ''./lib/*'')] [])])])]) = Inr D' \<and>
      get_path D' [str ''compilerOptions'', str ''baseUrl''] = Some (JStr (str ''.'')) \<and>
      get_path D' [str ''compilerOptions'', str ''paths''] = Some pathAlias) \<and>
   truthy (Some (JNum (str ''5''))) \<and> \<not> isObject (JNum (str ''5'')) \<and>
   injectPathAlias (JObj [(str ''compilerOptions'', JNum (str ''5''))])
     = Inr (JObj [(str ''compilerOptions'', JNum (str ''5''))]) \<and>
   (\<exists>D'. injectPathAlias (JObj [(str ''compilerOptions'', JArr [JNum (str ''1'')] [])]) = Inr D' \<and>
      get_path D' [str ''compilerOptions'', str ''baseUrl''] = Some (JStr (str ''.'')) \<and>
      JSON_stringify D' = JSON_stringify (JObj [(str ''compilerOptions'', JArr [JNum (str ''1'')] [])]))\<close>
proof -
  let ?o = \<open>JObj [(str ''paths'', JObj [(str ''~/*'', JArr [JStr (str ''./lib/*'')] [])])]\<close>
  have h1: \<open>map_of [(str ''compilerOptions'', ?o)] (str ''compilerOptions'') = Some ?o\<close>
    by simp
  have h2: \<open>map_of [(str ''compilerOptions'', JNum (str ''5''))] (str ''compilerOptions'') = Some (JNum (str ''5'')) \<and>
       truthy (Some (JNum (str ''5''))) \<and> \<not> isObject (JNum (str ''5''))\<close>
    by (simp add: str_def)
  have h3: \<open>map_of [(str ''compilerOptions'', JArr [JNum (str ''1'')] [])] (str ''compilerOptions'')
       = Some (JArr [JNum (str ''1'')] [])\<close>
    by simp
  from injectPathAlias_sets_alias
         [of \<open>[(str ''compilerOptions'', ?o)]\<close>
             \<open>[(str ''paths'', JObj [(str ''~/*'', JArr [JStr (str ''./lib/*'')] [])])]\<close>] h1
  have 1: \<open>\<exists>D'. injectPathAlias (JObj [(str ''compilerOptions'', ?o)]) = Inr D' \<and>
      get_path D' [str ''compilerOptions'', str ''baseUrl''] = Some (JStr (str ''.'')) \<and>
      get_path D' [str ''compilerOptions'', str ''paths''] = Some pathAlias\<close>
    by blast
  from injectPathAlias_sets_alias
         [of \<open>[(str ''compilerOptions'', JNum (str ''5''))]\<close> _ \<open>JNum (str ''5'')\<close>] h2
  have 2: \<open>injectPathAlias (JObj [(str ''compilerOptions'', JNum (str ''5''))])
     = Inr (JObj [(str ''compilerOptions'', JNum (str ''5''))])\<close>
    by blast
  from injectPathAlias_sets_alias
         [of \<open>[(str ''compilerOptions'', JArr [JNum (str ''1'')] [])]\<close> _ _ \<open>[JNum (str ''1'')]\<close> \<open>[]\<close>] h3
  have 3: \<open>\<exists>D'. injectPathAlias (JObj [(str ''compilerOptions'', JArr [JNum (str ''1'')] [])]) = Inr D' \<and>
      get_path D' [str ''compilerOptions'', str ''baseUrl''] = Some (JStr (str ''.'')) \<and>
      JSON_stringify D' = JSON_stringify (JObj [(str ''compilerOptions'', JArr [JNum (str ''1'')] [])])\<close>
    by blast
  from h1 h2 1 2 3 show ?thesis by blast
qed

section \<open>The other keys stay\<close>

text \<open>
  C3. The claim: the patch never removes or alters a key other than
  \<open>compilerOptions.baseUrl\<close> and \<open>compilerOptions.paths\<close>. The key \<open>compilerOptions\<close> is
  another key, and line 149 replaces its value by a new object when that value is
  \<open>false\<close>, \<open>0\<close>, the empty string or \<open>null\<close>.
\<close>

theorem injectPathAlias_falsy_counterexample:
  \<open>get_path (JObj [(str ''compilerOptions'', JBool False), (str ''x'', JNum (str ''1''))])
     [str ''compilerOptions''] = Some (JBool False) \<and>
   injectPathAlias (JObj [(str ''compilerOptions'', JBool False), (str ''x'', JNum (str ''1''))])
     = Inr (JObj [(str ''compilerOptions'',
                   JObj [(str ''baseUrl'', JStr (str ''.'')),
                         (str ''paths'', JObj [(str ''@/*'', JArr [JStr (str ''./src/*'')] [])])]),
                  (str ''x'', JNum (str ''1''))]) \<and>
   get_path (JObj [(str ''compilerOptions'',
                   JObj [(str ''baseUrl'', JStr (str ''.'')),
                         (str ''paths'', JObj [(str ''@/*'', JArr [JStr (str ''./src/*'')] [])])]),
                  (str ''x'', JNum (str ''1''))])
     [str ''compilerOptions''] \<noteq> Some (JBool False)\<close>
  by (simp add: eval_inject)

text \<open>
  C3, amended. The patch of a document never throws and removes no key. Every key path
  of the document other than \<open>compilerOptions\<close> itself, \<open>compilerOptions.baseUrl\<close> and
  \<open>compilerOptions.paths\<close> (and what lies below the two) leads to the same value
  afterwards. The value of \<open>compilerOptions\<close> itself: a truthy one receives the two
  entries where it can hold them (\<open>with_alias\<close>: an object or an array keeps every other
  entry, by the paths above), and is the same value afterwards when it is a number, a
  string or \<open>true\<close>; a falsy or absent one is replaced by the object of the two entries.
\<close>

theorem injectPathAlias_frame:
  "\<exists>D'. injectPathAlias (JObj ps) = Inr D' \<and>
     (\<forall>p V. get_path (JObj ps) p = Some V \<longrightarrow>
        p \<noteq> [] \<longrightarrow> p \<noteq> [str ''compilerOptions''] \<longrightarrow>
        take 2 p \<noteq> [str ''compilerOptions'', str ''baseUrl''] \<longrightarrow>
        take 2 p \<noteq> [str ''compilerOptions'', str ''paths''] \<longrightarrow>
        get_path D' p = Some V) \<and>
     (\<forall>k. map_of ps k \<noteq> None \<longrightarrow> get_path D' [k] \<noteq> None) \<and>
     (\<forall>c. map_of ps (str ''compilerOptions'') = Some c \<longrightarrow> truthy (Some c) \<longrightarrow>
        get_path D' [str ''compilerOptions''] = Some (with_alias c)) \<and>
     (\<forall>c. map_of ps (str ''compilerOptions'') = Some c \<longrightarrow> truthy (Some c) \<longrightarrow> \<not> isObject c \<longrightarrow>
        get_path D' [str ''compilerOptions''] = Some c) \<and>
     (\<not> truthy (map_of ps (str ''compilerOptions'')) \<longrightarrow>
        get_path D' [str ''compilerOptions''] =
          Some (JObj [(str ''baseUrl'', JStr (str ''.'')), (str ''paths'', pathAlias)]))"
proof -
  from map_of_patched_co [of ps] obtain ps' where
    i: "injectPathAlias (JObj ps) = Inr (JObj ps')" and
    m: "map_of ps' co = Some (with_alias (if truthy (map_of ps co) then the (map_of ps co) else JObj []))" and
    o: "\<forall>k. k \<noteq> co \<longrightarrow> map_of ps' k = map_of ps k"
    by blast
  have 1: "\<forall>p V. get_path (JObj ps) p = Some V \<longrightarrow> p \<noteq> [] \<longrightarrow> p \<noteq> [co] \<longrightarrow>
        take 2 p \<noteq> [co, bu] \<longrightarrow> take 2 p \<noteq> [co, pa] \<longrightarrow> get_path (JObj ps') p = Some V"
    using injectPathAlias_frame_path [OF i] by blast
  have 2: "\<forall>k. map_of ps k \<noteq> None \<longrightarrow> get_path (JObj ps') [k] \<noteq> None"
  proof (intro allI impI)
    fix k assume "map_of ps k \<noteq> None"
    then show "get_path (JObj ps') [k] \<noteq> None"
      using m o by (cases "k = co") auto
  qed
  have 3: "\<forall>c. map_of ps co = Some c \<longrightarrow> truthy (Some c) \<longrightarrow> get_path (JObj ps') [co] = Some (with_alias c)"
    using m by simp
  have 4: "\<forall>c. map_of ps co = Some c \<longrightarrow> truthy (Some c) \<longrightarrow> \<not> isObject c \<longrightarrow>
             get_path (JObj ps') [co] = Some c"
    using m by (simp add: with_alias_primitive)
  have 5: "\<not> truthy (map_of ps co) \<longrightarrow>
        get_path (JObj ps') [co] = Some (JObj [(bu, JStr (str ''.'')), (pa, pathAlias)])"
    using m with_alias_empty by simp
  from i 1 2 3 4 5 show ?thesis by blast
qed

theorem injectPathAlias_frame_witness:
  \<open>get_path (JObj [(str ''files'', JArr [] []),
       (str ''compilerOptions'', JObj [(str ''target'', JStr (str ''ES2020''))])])
     [str ''compilerOptions'', str ''target''] = Some (JStr (str ''ES2020'')) \<and>
   (\<exists>D'. injectPathAlias (JObj [(str ''files'', JArr [] []),
       (str ''compilerOptions'', JObj [(str ''target'', JStr (str ''ES2020''))])]) = Inr D' \<and>
      get_path D' [str ''compilerOptions'', str ''target''] = Some (JStr (str ''ES2020'')) \<and>
      get_path D' [str ''files''] \<noteq> None \<and>
      get_path D' [str ''compilerOptions''] = Some (with_alias (JObj [(str ''target'', JStr (str ''ES2020''))]))) \<and>
   (\<exists>D'. injectPathAlias (JObj [(str ''compilerOptions'', JStr (str ''strict''))]) = Inr D' \<and>
      get_path D' [str ''compilerOptions''] = Some (JStr (str ''strict''))) \<and>
   (\<exists>D'. injectPathAlias (JObj [(str ''compilerOptions'', JNull)]) = Inr D' \<and>
      get_path D' [str ''compilerOptions''] =
        Some (JObj [(str ''baseUrl'', JStr (str ''.'')), (str ''paths'', pathAlias)]))\<close>
proof -
  let ?ps = \<open>[(str ''files'', JArr [] []),
       (str ''compilerOptions'', JObj [(str ''target'', JStr (str ''ES2020''))])]\<close>
  let ?p = \<open>[str ''compilerOptions'', str ''target'']\<close>
  have g: \<open>get_path (JObj ?ps) ?p = Some (JStr (str ''ES2020''))\<close>
    by (simp add: str_def)
  have n: \<open>?p \<noteq> [] \<and> ?p \<noteq> [str ''compilerOptions''] \<and>
        take 2 ?p \<noteq> [str ''compilerOptions'', str ''baseUrl''] \<and>
        take 2 ?p \<noteq> [str ''compilerOptions'', str ''paths'']\<close>
    by (simp add: str_def)
  have f: \<open>map_of ?ps (str ''files'') \<noteq> None\<close> by simp
  have c: \<open>map_of ?ps (str ''compilerOptions'') = Some (JObj [(str ''target'', JStr (str ''ES2020''))]) \<and>
           truthy (Some (JObj [(str ''target'', JStr (str ''ES2020''))]))\<close>
    by (simp add: str_def)
  from injectPathAlias_frame [of ?ps] g n f c
  have 1: \<open>\<exists>D'. injectPathAlias (JObj ?ps) = Inr D' \<and>
      get_path D' ?p = Some (JStr (str ''ES2020'')) \<and>
      get_path D' [str ''files''] \<noteq> None \<and>
      get_path D' [str ''compilerOptions''] = Some (with_alias (JObj [(str ''target'', JStr (str ''ES2020''))]))\<close>
    by blast
  have s: \<open>map_of [(str ''compilerOptions'', JStr (str ''strict''))] (str ''compilerOptions'')
             = Some (JStr (str ''strict'')) \<and>
           truthy (Some (JStr (str ''strict''))) \<and> \<not> isObject (JStr (str ''strict''))\<close>
    by (simp add: str_def)
  from injectPathAlias_frame [of \<open>[(str ''compilerOptions'', JStr (str ''strict''))]\<close>] s
  have 2: \<open>\<exists>D'. injectPathAlias (JObj [(str ''compilerOptions'', JStr (str ''strict''))]) = Inr D' \<and>
      get_path D' [str ''compilerOptions''] = Some (JStr (str ''strict''))\<close>
    by blast
  have z: \<open>\<not> truthy (map_of [(str ''compilerOptions'', JNull)] (str ''compilerOptions''))\<close>
    by simp
  from injectPathAlias_frame [of \<open>[(str ''compilerOptions'', JNull)]\<close>] z
  have 3: \<open>\<exists>D'. injectPathAlias (JObj [(str ''compilerOptions'', JNull)]) = Inr D' \<and>
      get_path D' [str ''compilerOptions''] =
        Some (JObj [(str ''baseUrl'', JStr (str ''.'')), (str ''paths'', pathAlias)])\<close>
    by blast
  from g 1 2 3 show ?thesis by blast
qed

section \<open>A malformed configuration\<close>

text \<open>
  C5. When the text of tsconfig.app.json is not valid JSON after the two stripping steps,
  the patch fails with the SyntaxError of \<open>JSON.parse\<close> (the MalformedConfig of the
  specification), and the setup ends with status 1 in the state it had when the file
  was read, plus the error message: nothing is written and no later step runs.
\<close>

theorem malformed_config_aborts:
  assumes "\<not> length (argv E) < 3"
    and "\<not> exists_path E (argv E ! 2) (world s)"
    and "perform_all E (before_patch (argv E ! 2))
           (prints [printStatus (str ''Setting up React TypeScript project: '' @ argv E ! 2)] s) = Inr s1"
    and "read_file E (str ''tsconfig.app.json'') (world s1) = Some t"
    and "JSON_parse (num E) (stripTrailingCommas_js (stripComments t)) = Inl SyntaxError"
  shows "patch_js (num E) t = Inl SyntaxError \<and>
         perform E (patch_step E) s1 = Inl (SyntaxError, s1) \<and>
         setupReactProject E T s =
           (Exited 1, prints [printError (str ''Setup failed: '' @ message E SyntaxError)] s1)"
proof -
  have p: "patch_js (num E) t = Inl SyntaxError"
    using assms(5) by (simp add: patch_js_def patch_text_def)
  have q: "perform E (patch_step E) s1 = Inl (SyntaxError, s1)"
    using assms(4) p by (simp add: patch_step_def)
  have "try_block E T (argv E ! 2)
          (prints [printStatus (str ''Setting up React TypeScript project: '' @ argv E ! 2)] s)
        = Inl (SyntaxError, s1)"
    unfolding try_block_def perform_all_append using assms(3) q by simp
  then have "setupReactProject E T s =
           (Exited 1, prints [printError (str ''Setup failed: '' @ message E SyntaxError)] s1)"
    unfolding setupReactProject_def using assms(1,2) by (simp add: Let_def)
  with p q show ?thesis by simp
qed

theorem malformed_config_aborts_witness:
  \<open>JSON_parse num_plain (stripTrailingCommas_js (stripComments (str ''{"extends": "./base''))) = Inl SyntaxError \<and>
   fst (setupReactProject (disk_env [str ''node'', str ''setup-react.js'', str ''app''] (str ''linux'')) no_templates
      \<lparr> world = [(str ''tsconfig.app.json'', File (str ''{"extends": "./base''))], trace = [] \<rparr>)
    = Exited 1\<close>
proof -
  let ?E = \<open>disk_env [str ''node'', str ''setup-react.js'', str ''app''] (str ''linux'')\<close>
  let ?s = \<open>\<lparr> world = [(str ''tsconfig.app.json'', File (str ''{"extends": "./base''))], trace = [] \<rparr> :: disk state\<close>
  let ?t = \<open>str ''{"extends": "./base''\<close>
  have h1: "\<not> length (argv ?E) < 3" by (simp add: disk_env_def)
  have h2: "\<not> exists_path ?E (argv ?E ! 2) (world ?s)" by (simp add: disk_env_def str_def)
  have h3: "\<exists>s1. perform_all ?E (before_patch (argv ?E ! 2))
           (prints [printStatus (str ''Setting up React TypeScript project: '' @ argv ?E ! 2)] ?s) = Inr s1 \<and>
           read_file ?E (str ''tsconfig.app.json'') (world s1) = Some ?t"
    by (simp add: eval_setup eval_json str_def)
  have h5: "JSON_parse (num ?E) (stripTrailingCommas_js (stripComments ?t)) = Inl SyntaxError"
    by (simp add: disk_env_def eval_strip eval_json)
  from h3 obtain s1 where
    s1: "perform_all ?E (before_patch (argv ?E ! 2))
           (prints [printStatus (str ''Setting up React TypeScript project: '' @ argv ?E ! 2)] ?s) = Inr s1"
        "read_file ?E (str ''tsconfig.app.json'') (world s1) = Some ?t" by blast
  from malformed_config_aborts [OF h1 h2 s1 h5, of no_templates]
  have "fst (setupReactProject ?E no_templates ?s) = Exited 1" by simp
  moreover from h5 have "JSON_parse num_plain (stripTrailingCommas_js (stripComments ?t)) = Inl SyntaxError"
    by (simp add: disk_env_def)
  ultimately show ?thesis by simp
qed


section \<open>The clipboard\<close>

text \<open>
  C9. When \<open>copyToClipboard\<close> returns false (every error inside it is caught, so it
  always returns), the setup prints the next steps and returns normally: the run ends
  with \<open>Returned\<close> in the world that \<open>copyToClipboard\<close> left, and the last four lines of
  output are the lines of the \<open>else\<close> branch of lines 401 to 406, written out here with
  their colour codes.
\<close>

theorem clipboard_failure_is_not_fatal:
  assumes "\<not> length (argv E) < 3"
    and "\<not> exists_path E (argv E ! 2) (world s)"
    and "perform_all E
           (before_patch (argv E ! 2) @ [patch_step E] @ after_patch E T (argv E ! 2))
           (prints [printStatus (str ''Setting up React TypeScript project: '' @ argv E ! 2)] s) = Inr s1"
    and "copyToClipboard E (str ''cd '' @ argv E ! 2 @ str '' && npm run dev'') s1 = (False, s2)"
  shows "setupReactProject E T s =
           (Returned,
            \<lparr> world = world s2,
              trace = trace s2 @
                [Printed (0x1B # str ''[32m[SUCCESS]'' @ 0x1B # str ''[0m Next steps:''),
                 Printed (0x1B # str ''[32m[SUCCESS]'' @ 0x1B # str ''[0m   cd '' @ argv E ! 2),
                 Printed (0x1B # str ''[32m[SUCCESS]'' @ 0x1B # str ''[0m   npm run dev''),
                 Printed (0x1B # str ''[32m[SUCCESS]'' @ 0x1B # str ''[0m '')] \<rparr>)"
proof -
  have "next_steps E (argv E ! 2) s1 =
          Inr \<lparr> world = world s2,
              trace = trace s2 @
                [Printed (0x1B # str ''[32m[SUCCESS]'' @ 0x1B # str ''[0m Next steps:''),
                 Printed (0x1B # str ''[32m[SUCCESS]'' @ 0x1B # str ''[0m   cd '' @ argv E ! 2),
                 Printed (0x1B # str ''[32m[SUCCESS]'' @ 0x1B # str ''[0m   npm run dev''),
                 Printed (0x1B # str ''[32m[SUCCESS]'' @ 0x1B # str ''[0m '')] \<rparr>"
    unfolding next_steps_def using assms(4)
    by (simp add: printSuccess_def colored_def emit_def str_def)
  then have "try_block E T (argv E ! 2)
          (prints [printStatus (str ''Setting up React TypeScript project: '' @ argv E ! 2)] s)
        = Inr \<lparr> world = world s2,
              trace = trace s2 @
                [Printed (0x1B # str ''[32m[SUCCESS]'' @ 0x1B # str ''[0m Next steps:''),
                 Printed (0x1B # str ''[32m[SUCCESS]'' @ 0x1B # str ''[0m   cd '' @ argv E ! 2),
                 Printed (0x1B # str ''[32m[SUCCESS]'' @ 0x1B # str ''[0m   npm run dev''),
                 Printed (0x1B # str ''[32m[SUCCESS]'' @ 0x1B # str ''[0m '')] \<rparr>"
    unfolding try_block_def using assms(3) by simp
  then show ?thesis
    unfolding setupReactProject_def using assms(1,2) by (simp add: Let_def)
qed

theorem clipboard_failure_is_not_fatal_witness:
  \<open>fst (copyToClipboard (disk_env [str ''node'', str ''setup-react.js'', str ''app''] (str ''freebsd''))
          (str ''cd app && npm run dev'') \<lparr> world = [], trace = [] \<rparr>) = False \<and>
   fst (setupReactProject (disk_env [str ''node'', str ''setup-react.js'', str ''app''] (str ''freebsd'')) no_templates
      \<lparr> world = [(str ''tsconfig.app.json'', File (str ''{}'')), (str ''index.html'', File [])], trace = [] \<rparr>)
    = Returned \<and>
   drop (length (trace (snd (setupReactProject (disk_env [str ''node'', str ''setup-react.js'', str ''app''] (str ''freebsd'')) no_templates
      \<lparr> world = [(str ''tsconfig.app.json'', File (str ''{}'')), (str ''index.html'', File [])], trace = [] \<rparr>))) - 4)
     (trace (snd (setupReactProject (disk_env [str ''node'', str ''setup-react.js'', str ''app''] (str ''freebsd'')) no_templates
      \<lparr> world = [(str ''tsconfig.app.json'', File (str ''{}'')), (str ''index.html'', File [])], trace = [] \<rparr>)))
    = [Printed (0x1B # str ''[32m[SUCCESS]'' @ 0x1B # str ''[0m Next steps:''),
       Printed (0x1B # str ''[32m[SUCCESS]'' @ 0x1B # str ''[0m   cd app''),
       Printed (0x1B # str ''[32m[SUCCESS]'' @ 0x1B # str ''[0m   npm run dev''),
       Printed (0x1B # str ''[32m[SUCCESS]'' @ 0x1B # str ''[0m '')]\<close>
proof -
  let ?E = \<open>disk_env [str ''node'', str ''setup-react.js'', str ''app''] (str ''freebsd'')\<close>
  let ?s = \<open>\<lparr> world = [(str ''tsconfig.app.json'', File (str ''{}'')), (str ''index.html'', File [])], trace = [] \<rparr> :: disk state\<close>
  have h1: "\<not> length (argv ?E) < 3" by (simp add: disk_env_def)
  have h2: "\<not> exists_path ?E (argv ?E ! 2) (world ?s)" by (simp add: disk_env_def str_def)
  have h3: "\<exists>s1. perform_all ?E
           (before_patch (argv ?E ! 2) @ [patch_step ?E] @ after_patch ?E no_templates (argv ?E ! 2))
           (prints [printStatus (str ''Setting up React TypeScript project: '' @ argv ?E ! 2)] ?s) = Inr s1"
    by (simp add: eval_setup eval_strip eval_json eval_inject)
  then obtain s1 where s1: "perform_all ?E
           (before_patch (argv ?E ! 2) @ [patch_step ?E] @ after_patch ?E no_templates (argv ?E ! 2))
           (prints [printStatus (str ''Setting up React TypeScript project: '' @ argv ?E ! 2)] ?s) = Inr s1"
    by blast
  have c: "\<And>t s. copyToClipboard ?E t s = (False, s)"
    by (simp add: copyToClipboard_def disk_env_def str_def)
  have a: "argv ?E ! 2 = str ''app''" by (simp add: disk_env_def)
  have e: \<open>str ''[0m   cd '' @ str ''app'' = str ''[0m   cd app''\<close> by (simp add: str_def)
  from clipboard_failure_is_not_fatal [OF h1 h2 s1 c]
  show ?thesis unfolding a using c e by simp
qed

section \<open>The checks before the first command\<close>

text \<open>
  C10. The claim: when an entry with the project name exists, or no name is given, the
  script exits with status 1 before it starts a command or writes a file. setup-react.js
  tests \<open>fs.existsSync\<close>, which holds for every kind of entry; the shell script tests
  \<open>[ -d ... ]\<close>, which holds for directories only, so with a regular file of that name it
  goes on to \<open>npm create vite\<close>. Both exit with status 1 when no name is given, and then,
  as in the case of an entry that their test finds, their only effects are lines of
  output: the world is the one they started in.
\<close>

theorem prechecks_exit_without_effect:
  "(length (argv E) < 3 \<or> exists_path E (argv E ! 2) (world s) \<longrightarrow>
      (\<exists>ls. setupReactProject E T s = (Exited 1, s\<lparr>trace := trace s @ map Printed ls\<rparr>))) \<and>
   (args = [] \<or> is_directory E (hd args) (world s) \<longrightarrow>
      (\<exists>ls. setup_sh_start E args s = (ShExited 1, s\<lparr>trace := trace s @ map Printed ls\<rparr>)))"
proof (intro conjI impI)
  assume a: "length (argv E) < 3 \<or> exists_path E (argv E ! 2) (world s)"
  show "\<exists>ls. setupReactProject E T s = (Exited 1, s\<lparr>trace := trace s @ map Printed ls\<rparr>)"
  proof (cases "length (argv E) < 3")
    case True
    have "setupReactProject E T s = (Exited 1, s\<lparr>trace := trace s @ map Printed
             [colored (str ''[31m'') (str ''[ERROR]'') (str ''Need a project name''),
              str ''Usage: node '' @ script_name E @ str '' <project-name>'']\<rparr>)"
      using True by (simp add: setupReactProject_def printError_def emit_def)
    then show ?thesis by blast
  next
    case False
    with a have "exists_path E (argv E ! 2) (world s)" by simp
    with False have "setupReactProject E T s = (Exited 1, s\<lparr>trace := trace s @ map Printed
             [colored (str ''[31m'') (str ''[ERROR]'')
                (str ''Directory '' @ [0x27] @ argv E ! 2 @ [0x27] @ str '' already exists'')]\<rparr>)"
      by (simp add: setupReactProject_def printError_def emit_def Let_def)
    then show ?thesis by blast
  qed
next
  assume a: "args = [] \<or> is_directory E (hd args) (world s)"
  show "\<exists>ls. setup_sh_start E args s = (ShExited 1, s\<lparr>trace := trace s @ map Printed ls\<rparr>)"
  proof (cases args)
    case Nil
    have "setup_sh_start E args s = (ShExited 1, s\<lparr>trace := trace s @ map Printed
             [echo_e E (0x5C # str ''033[0;31m'' @ str ''[ERROR]'' @ 0x5C # str ''033[0m'' @ str '' '' @ str ''Need a project name''),
              str ''Usage: '' @ script_name E @ str '' <project-name>'']\<rparr>)"
      using Nil by (simp add: setup_sh_start_def print_error_def sh_print_def emit_def)
    then show ?thesis by blast
  next
    case (Cons n rest)
    with a have "is_directory E n (world s)" by simp
    with Cons have "setup_sh_start E args s = (ShExited 1, s\<lparr>trace := trace s @ map Printed
             [echo_e E (0x5C # str ''033[0;31m'' @ str ''[ERROR]'' @ 0x5C # str ''033[0m'' @ str '' '' @
                str ''Directory '' @ [0x27] @ n @ [0x27] @ str '' already exists'')]\<rparr>)"
      by (simp add: setup_sh_start_def print_error_def sh_print_def emit_def)
    then show ?thesis by blast
  qed
qed

theorem prechecks_exit_without_effect_witness:
  \<open>exists_path (disk_env [str ''node'', str ''setup-react.js'', str ''app''] (str ''linux'')) (str ''app'')
      [(str ''app'', Dir)] \<and>
   is_directory (disk_env [str ''node'', str ''setup-react.js'', str ''app''] (str ''linux'')) (str ''app'')
      [(str ''app'', Dir)] \<and>
   (\<exists>ls. setupReactProject (disk_env [str ''node'', str ''setup-react.js'', str ''app''] (str ''linux'')) no_templates
       \<lparr> world = [(str ''app'', Dir)], trace = [] \<rparr>
     = (Exited 1, \<lparr> world = [(str ''app'', Dir)], trace = map Printed ls \<rparr>)) \<and>
   (\<exists>ls. setup_sh_start (disk_env [str ''node'', str ''setup-react.js'', str ''app''] (str ''linux'')) [str ''app'']
       \<lparr> world = [(str ''app'', Dir)], trace = [] \<rparr>
     = (ShExited 1, \<lparr> world = [(str ''app'', Dir)], trace = map Printed ls \<rparr>))\<close>
proof -
  let ?E = \<open>disk_env [str ''node'', str ''setup-react.js'', str ''app''] (str ''linux'')\<close>
  let ?s = \<open>\<lparr> world = [(str ''app'', Dir)], trace = [] \<rparr> :: disk state\<close>
  have h1: "exists_path ?E (argv ?E ! 2) (world ?s)" by (simp add: disk_env_def)
  have h2: "is_directory ?E (hd [str ''app'']) (world ?s)" by (simp add: disk_env_def)
  have e: "argv ?E ! 2 = str ''app''" by (simp add: disk_env_def)
  from prechecks_exit_without_effect [of ?E ?s no_templates "[str ''app'']"] h1 h2
  show ?thesis unfolding e by simp
qed

theorem sh_existing_file_counterexample:
  \<open>exists_path (disk_env [] (str ''linux'')) (str ''app'') [(str ''app'', File [])] \<and>
   setup_sh_start (disk_env [] (str ''linux'')) [str ''app'']
       \<lparr> world = [(str ''app'', File [])], trace = [] \<rparr>
     = (ShContinues,
        \<lparr> world = [(str ''app'', File [])],
          trace = [print_status (disk_env [] (str ''linux'')) (str ''Setting up React TypeScript project: app''),
                   print_status (disk_env [] (str ''linux'')) (str ''Creating Vite project...''),
                   Ran (str ''npm create vite@latest "app" -- --template react-ts'')] \<rparr>)\<close>
  by (simp add: eval_setup str_def)

section \<open>The two entry points\<close>

text \<open>
  C8. The claim: the patch of setup-react.js and the patch of the shell script give the
  same output text for every input. They differ in the pattern for trailing commas
  (\<^verbatim>\<open>s*\<close> against \<^verbatim>\<open>\s*\<close>): for a comma followed by a newline and a closing brace the
  first fails with a SyntaxError where the second writes the patched configuration.
\<close>

theorem patch_js_differs_from_patch_sh:
  \<open>patch_js num_plain (str ''{"a": 1,\<newline>}'') = Inl SyntaxError \<and>
   patch_sh num_plain (str ''{"a": 1,\<newline>}'') =
     Inr (str ''{\<newline>  "a": 1,\<newline>  "compilerOptions": {\<newline>    "baseUrl": ".",\<newline>    "paths": {\<newline>      "@/*": [\<newline>        "./src/*"\<newline>      ]\<newline>    }\<newline>  }\<newline>}'')\<close>
  by (simp add: eval_json eval_strip eval_inject)

section \<open>Comments and a trailing comma before the parse\<close>

text \<open>
  C7. The claim: for every valid JSON text with a block comment, a line comment and a
  trailing comma before a closing brace added, parsing after the stripping steps gives
  what parsing the text without the three gives. The stripping is textual, so a string
  of the JSON text that contains \<^verbatim>\<open>//\<close> loses its end, and the parse fails.
\<close>

theorem comment_in_string_counterexample:
  \<open>JSON_parse num_plain (stripTrailingCommas_js (stripComments (str ''{/* c */"u": "a//b",}// d''))) = Inl SyntaxError \<and>
   JSON_parse num_plain (str ''{"u": "a//b"}'') = Inr (JObj [(str ''u'', JStr (str ''a//b''))])\<close>
  by (simp add: eval_json eval_strip eval_inject)

text \<open>
  C7, amended. Take a text \<open>x @ "}" @ y\<close> in which the pattern of line 146 matches
  nowhere; put a comma directly before that closing brace; add, or not, a line comment at
  the end of a line (\<open>a @ lc @ b\<close>), where the text before it does not end with a slash;
  add a block comment anywhere (\<open>p @ bc @ q\<close>). When the text with the comma contains no
  \<^verbatim>\<open>//\<close> and the text with the comma and the line comment contains no \<^verbatim>\<open>/*\<close>, the two
  stripping steps give back \<open>x @ "}" @ y\<close>, and \<open>JSON.parse\<close> gives on the stripped text
  what it gives on \<open>x @ "}" @ y\<close>: the same value when that text is valid JSON. The
  example of the specification is an instance.
\<close>

theorem strip_then_parse_tolerates_comments:
  assumes "is_block_comment bc"
    and "lc = [] \<or> is_line_comment lc \<and> (a = [] \<or> last a \<noteq> 0x2F) \<and> (b = [] \<or> isLineTerminator (hd b))"
    and "p @ q = a @ lc @ b"
    and "a @ b = x @ 0x2C # 0x7D # y"
    and "\<not> has_pair 0x2F 0x2A (a @ lc @ b)"
    and "\<not> has_pair 0x2F 0x2F (a @ b)"
    and "matches_nowhere re_comma_js (x @ 0x7D # y)"
  shows "stripTrailingCommas_js (stripComments (p @ bc @ q)) = x @ 0x7D # y \<and>
         JSON_parse rd (stripTrailingCommas_js (stripComments (p @ bc @ q))) = JSON_parse rd (x @ 0x7D # y)"
proof -
  have 1: "strip_block_spec (p @ bc @ q) = a @ lc @ b"
    using strip_block_spec_insert [OF assms(1), of p q] assms(3,5) by simp
  have 2: "strip_line_spec (a @ lc @ b) = a @ b"
  proof (cases "lc = []")
    case True
    then show ?thesis using assms(6) by (simp add: strip_line_spec_id)
  next
    case False
    with assms(2) have "is_line_comment lc" "a = [] \<or> last a \<noteq> 0x2F" "b = [] \<or> isLineTerminator (hd b)"
      by auto
    then show ?thesis using strip_line_spec_insert assms(6) by blast
  qed
  have "stripComments (p @ bc @ q) = x @ 0x2C # 0x7D # y"
    by (simp only: stripComments_refines 1 2 assms(4))
  then have "stripTrailingCommas_js (stripComments (p @ bc @ q)) = x @ 0x7D # y"
    using replace_comma_js_insert [OF assms(7)] by (simp add: stripTrailingCommas_js_def)
  then show ?thesis by simp
qed


theorem strip_then_parse_tolerates_comments_witness:
  \<open>is_block_comment (str ''/* trailing */'') \<and>
   matches_nowhere re_comma_js (str ''{"compilerOptions": {"target": "ES2020"} }'') \<and>
   JSON_parse num_plain (stripTrailingCommas_js (stripComments
       (str ''{"compilerOptions": {"target": "ES2020"} /* trailing */,}'')))
     = Inr (JObj [(str ''compilerOptions'', JObj [(str ''target'', JStr (str ''ES2020''))])])\<close>
proof -
  let ?x = \<open>str ''{"compilerOptions": {"target": "ES2020"} ''\<close>
  let ?bc = \<open>str ''/* trailing */''\<close>
  have h1: "is_block_comment ?bc"
    by (simp add: is_block_comment_def str_def)
  have h2: "[] = [] \<or> is_line_comment [] \<and> (?x @ 0x2C # 0x7D # [] = [] \<or> last (?x @ 0x2C # 0x7D # []) \<noteq> 0x2F) \<and>
              ([] = [] \<or> isLineTerminator (hd []))"
    by simp
  have h3: "?x @ (0x2C # 0x7D # []) = (?x @ 0x2C # 0x7D # []) @ [] @ []" by simp
  have h4: "(?x @ 0x2C # 0x7D # []) @ [] = ?x @ 0x2C # 0x7D # []" by simp
  have h5: "\<not> has_pair 0x2F 0x2A ((?x @ 0x2C # 0x7D # []) @ [] @ [])" by (simp add: str_def)
  have h6: "\<not> has_pair 0x2F 0x2F ((?x @ 0x2C # 0x7D # []) @ [])" by (simp add: str_def)
  have h7: "matches_nowhere re_comma_js (?x @ 0x7D # [])"
    by (simp add: eval_strip)
  have t: \<open>?x @ ?bc @ (0x2C # 0x7D # []) = str ''{"compilerOptions": {"target": "ES2020"} /* trailing */,}''\<close>
    by (simp add: str_def)
  have m: \<open>?x @ 0x7D # [] = str ''{"compilerOptions": {"target": "ES2020"} }''\<close>
    by (simp add: str_def)
  have p: \<open>JSON_parse num_plain (str ''{"compilerOptions": {"target": "ES2020"} }'')
     = Inr (JObj [(str ''compilerOptions'', JObj [(str ''target'', JStr (str ''ES2020''))])])\<close>
    by (simp add: eval_json eval_strip eval_inject)
  from strip_then_parse_tolerates_comments [OF h1 h2 h3 h4 h5 h6 h7, of num_plain]
  have "JSON_parse num_plain (stripTrailingCommas_js (stripComments (?x @ ?bc @ (0x2C # 0x7D # []))))
      = JSON_parse num_plain (?x @ 0x7D # [])" by blast
  then show ?thesis using h1 h7 unfolding t m p by simp
qed

section \<open>The patch applied twice\<close>

text \<open>
  C1. The claim: the pipeline (strip comments, strip trailing commas, parse, set the path
  alias, write) run on its own output gives the same document as one run. The two
  stripping steps work on the text and know nothing of strings: the output of the first run
  always holds \<open>/*\<close> (in the key \<open>@/*\<close> and in \<open>./src/*\<close>), so when a string after them holds
  \<open>*/\<close>, the second run takes everything between for a comment, and \<open>JSON.parse\<close> throws.
\<close>

theorem patch_twice_counterexample:
  \<open>patch_js num_plain (str ''{"compilerOptions": {}, "x": "*/"}'') =
     Inr (str ''{\<newline>  "compilerOptions": {\<newline>    "baseUrl": ".",\<newline>    "paths": {\<newline>      "@/*": [\<newline>        "./src/*"\<newline>      ]\<newline>    }\<newline>  },\<newline>  "x": "*/"\<newline>}'') \<and>
   patch_js num_plain (str ''{\<newline>  "compilerOptions": {\<newline>    "baseUrl": ".",\<newline>    "paths": {\<newline>      "@/*": [\<newline>        "./src/*"\<newline>      ]\<newline>    }\<newline>  },\<newline>  "x": "*/"\<newline>}'') = Inl SyntaxError\<close>
  by (simp add: eval_json eval_strip eval_inject)

text \<open>
  C1, as it holds: when the text parses after stripping to a document whose numbers are
  finite, and the two stripping steps find nothing to remove in the output of the first
  run, the second run writes that output again, character for character (hence the same
  document). A number that is not finite (\<open>1e999\<close>) is written as \<open>null\<close>, which is why the
  numbers are asked to be finite.
\<close>

theorem patch_twice_same_text:
  assumes "JSON_parse rd (stripTrailingCommas_js (stripComments T)) = Inr d"
    and "finite_numbers rd d"
    and "patch_js rd T = Inr out"
    and "stripComments out = out"
    and "stripTrailingCommas_js out = out"
  shows "patch_js rd out = Inr out"
proof -
  from assms(1,3) obtain d' where i: "injectPathAlias d = Inr d'" and o: "out = JSON_stringify d'"
    unfolding patch_js_def patch_text_def by (auto split: sum.splits)
  from JSON_parse_tidy [OF assms(1)] have t: "tidy d" .
  from inject_tidy [OF t assms(2) i]
  have od: "ordered d'" and fd: "finite_numbers rd d'" and ie: "injectPathAlias (erase d') = Inr d'"
    by blast+
  have "JSON_parse rd out = Inr (erase d')"
    unfolding o using JSON_parse_stringify [OF od fd] .
  then show ?thesis
    unfolding patch_js_def patch_text_def using assms(4,5) ie o by simp
qed

theorem patch_twice_same_text_witness:
  \<open>JSON_parse num_plain (stripTrailingCommas_js (stripComments
       (str ''{"compilerOptions": {"target": "ES2020"} /* trailing */, "n": 5,}'')))
     = Inr (JObj [(str ''compilerOptions'', JObj [(str ''target'', JStr (str ''ES2020''))]),
                  (str ''n'', JNum (str ''5''))]) \<and>
   finite_numbers num_plain
     (JObj [(str ''compilerOptions'', JObj [(str ''target'', JStr (str ''ES2020''))]),
            (str ''n'', JNum (str ''5''))]) \<and>
   patch_js num_plain (str ''{"compilerOptions": {"target": "ES2020"} /* trailing */, "n": 5,}'') =
     Inr (str ''{\<newline>  "compilerOptions": {\<newline>    "target": "ES2020",\<newline>    "baseUrl": ".",\<newline>    "paths": {\<newline>      "@/*": [\<newline>        "./src/*"\<newline>      ]\<newline>    }\<newline>  },\<newline>  "n": 5\<newline>}'') \<and>
   stripComments (str ''{\<newline>  "compilerOptions": {\<newline>    "target": "ES2020",\<newline>    "baseUrl": ".",\<newline>    "paths": {\<newline>      "@/*": [\<newline>        "./src/*"\<newline>      ]\<newline>    }\<newline>  },\<newline>  "n": 5\<newline>}'')
     = str ''{\<newline>  "compilerOptions": {\<newline>    "target": "ES2020",\<newline>    "baseUrl": ".",\<newline>    "paths": {\<newline>      "@/*": [\<newline>        "./src/*"\<newline>      ]\<newline>    }\<newline>  },\<newline>  "n": 5\<newline>}'' \<and>
   stripTrailingCommas_js (str ''{\<newline>  "compilerOptions": {\<newline>    "target": "ES2020",\<newline>    "baseUrl": ".",\<newline>    "paths": {\<newline>      "@/*": [\<newline>        "./src/*"\<newline>      ]\<newline>    }\<newline>  },\<newline>  "n": 5\<newline>}'')
     = str ''{\<newline>  "compilerOptions": {\<newline>    "target": "ES2020",\<newline>    "baseUrl": ".",\<newline>    "paths": {\<newline>      "@/*": [\<newline>        "./src/*"\<newline>      ]\<newline>    }\<newline>  },\<newline>  "n": 5\<newline>}'' \<and>
   patch_js num_plain (str ''{\<newline>  "compilerOptions": {\<newline>    "target": "ES2020",\<newline>    "baseUrl": ".",\<newline>    "paths": {\<newline>      "@/*": [\<newline>        "./src/*"\<newline>      ]\<newline>    }\<newline>  },\<newline>  "n": 5\<newline>}'') =
     Inr (str ''{\<newline>  "compilerOptions": {\<newline>    "target": "ES2020",\<newline>    "baseUrl": ".",\<newline>    "paths": {\<newline>      "@/*": [\<newline>        "./src/*"\<newline>      ]\<newline>    }\<newline>  },\<newline>  "n": 5\<newline>}'')\<close>
proof -
  let ?T = \<open>str ''{"compilerOptions": {"target": "ES2020"} /* trailing */, "n": 5,}''\<close>
  let ?d = \<open>JObj [(str ''compilerOptions'', JObj [(str ''target'', JStr (str ''ES2020''))]),
                  (str ''n'', JNum (str ''5''))]\<close>
  let ?out = \<open>str ''{\<newline>  "compilerOptions": {\<newline>    "target": "ES2020",\<newline>    "baseUrl": ".",\<newline>    "paths": {\<newline>      "@/*": [\<newline>        "./src/*"\<newline>      ]\<newline>    }\<newline>  },\<newline>  "n": 5\<newline>}''\<close>
  have p: "JSON_parse num_plain (stripTrailingCommas_js (stripComments ?T)) = Inr ?d"
    by (simp add: eval_json eval_strip eval_inject)
  have f: "finite_numbers num_plain ?d"
    by (simp add: isNumeral_def eval_json eval_inject)
  have o: "patch_js num_plain ?T = Inr ?out"
    by (simp add: eval_json eval_strip eval_inject)
  have s1: "stripComments ?out = ?out"
    by (simp add: eval_strip)
  have s2: "stripTrailingCommas_js ?out = ?out"
    by (simp add: eval_strip)
  note c = patch_twice_same_text [OF p f o s1 s2]
  show ?thesis by (intro conjI p f o s1 s2 c)
qed

end
